theory Spec2Isabelle
  imports Main "HOL-Library.AList" "HOL-Library.Word"
begin

section \<open>Python exceptions\<close>

text \<open>
  Every \<^verbatim>\<open>raise\<close>, failed \<^verbatim>\<open>assert\<close>, missing attribute or missing key of the
  source is a value of this type; \<^verbatim>\<open>OSError\<close> comes from the file system, and
  \<^verbatim>\<open>SystemExit\<close> (\<^verbatim>\<open>sys.exit(code)\<close> with an integer code) from the code that
  decompiles a file.
\<close>

datatype error =
    ValueError | AssertionError | AttributeError | KeyError | TypeError | IndexError
  | OSError | SystemExit int

text \<open>
  \<^verbatim>\<open>isinstance(e, Exception)\<close>, which is what \<^verbatim>\<open>except Exception\<close> tests:
  \<^verbatim>\<open>SystemExit\<close> derives from \<^verbatim>\<open>BaseException\<close> only.
\<close>

fun is_Exception :: "error \<Rightarrow> bool" where
  "is_Exception (SystemExit code) = False"
| "is_Exception e = True"

text \<open>
  The exit status of the interpreter when the exception leaves the program: the code of a
  \<^verbatim>\<open>SystemExit\<close> (of which the system keeps the lowest eight bits), and 1 after the
  traceback of any other exception.
\<close>

fun exit_status :: "error \<Rightarrow> int" where
  "exit_status (SystemExit code) = code mod 256"
| "exit_status e = 1"

section \<open>Operator codes of \<^verbatim>\<open>BinaryOperator\<close> (ljd/ast/nodes.py)\<close>

definition T_LOGICAL_OR :: int where "T_LOGICAL_OR = 0"
definition T_LOGICAL_AND :: int where "T_LOGICAL_AND = 10"
definition T_LESS_THEN :: int where "T_LESS_THEN = 20"
definition T_GREATER_THEN :: int where "T_GREATER_THEN = 21"
definition T_LESS_OR_EQUAL :: int where "T_LESS_OR_EQUAL = 22"
definition T_GREATER_OR_EQUAL :: int where "T_GREATER_OR_EQUAL = 23"
definition T_NOT_EQUAL :: int where "T_NOT_EQUAL = 24"
definition T_EQUAL :: int where "T_EQUAL = 25"
definition T_CONCAT :: int where "T_CONCAT = 30"
definition T_ADD :: int where "T_ADD = 40"
definition T_SUBTRACT :: int where "T_SUBTRACT = 41"
definition T_MULTIPLY :: int where "T_MULTIPLY = 50"
definition T_DIVISION :: int where "T_DIVISION = 51"
definition T_MOD :: int where "T_MOD = 52"
definition T_POW :: int where "T_POW = 70"

lemmas T_defs =
  T_LOGICAL_OR_def T_LOGICAL_AND_def T_LESS_THEN_def T_GREATER_THEN_def
  T_LESS_OR_EQUAL_def T_GREATER_OR_EQUAL_def T_NOT_EQUAL_def T_EQUAL_def
  T_CONCAT_def T_ADD_def T_SUBTRACT_def T_MULTIPLY_def T_DIVISION_def T_MOD_def T_POW_def

text \<open>Precedence levels, shared with \<^verbatim>\<open>UnaryOperator\<close>.\<close>

definition PR_OR :: int where "PR_OR = 1"
definition PR_AND :: int where "PR_AND = 2"
definition PR_COMPARISON :: int where "PR_COMPARISON = 3"
definition PR_CONCATENATE :: int where "PR_CONCATENATE = 4"
definition PR_MATH_ADDSUB :: int where "PR_MATH_ADDSUB = 5"
definition PR_MATH :: int where "PR_MATH = 6"
definition PR_UNARY :: int where "PR_UNARY = 7"
definition PR_EXPONENT :: int where "PR_EXPONENT = 8"

lemmas PR_defs =
  PR_OR_def PR_AND_def PR_COMPARISON_def PR_CONCATENATE_def PR_MATH_ADDSUB_def
  PR_MATH_def PR_UNARY_def PR_EXPONENT_def

text \<open>
  \<^verbatim>\<open>BinaryOperator.precedence\<close>, as a function of \<^verbatim>\<open>self.type\<close>. The final
  \<^verbatim>\<open>else\<close> raises \<^verbatim>\<open>ValueError\<close>.
\<close>

definition precedence :: "int \<Rightarrow> error + int" where
  "precedence type =
     (if type \<le> T_LOGICAL_OR then Inr PR_OR
      else if type \<le> T_LOGICAL_AND then Inr PR_AND
      else if type \<le> T_EQUAL then Inr PR_COMPARISON
      else if type \<le> T_CONCAT then Inr PR_CONCATENATE
      else if type \<le> T_SUBTRACT then Inr PR_MATH_ADDSUB
      else if type \<le> T_MOD then Inr PR_MATH
      else if type \<le> T_POW then Inr PR_EXPONENT
      else Inl ValueError)"

text \<open>\<^verbatim>\<open>UnaryOperator.precedence\<close>: the constant \<^verbatim>\<open>BinaryOperator.PR_UNARY\<close>, whatever the type.\<close>

definition UnaryOperator_precedence :: "int \<Rightarrow> int" where
  "UnaryOperator_precedence type = PR_UNARY"

text \<open>\<^verbatim>\<open>BinaryOperator.is_right_associative\<close>.\<close>

definition is_right_associative :: "int \<Rightarrow> bool" where
  "is_right_associative type =
     (if type = T_CONCAT then False
      else if type = T_POW then True
      else False)"

text \<open>\<^verbatim>\<open>BinaryOperator.is_commutative\<close>; the final \<^verbatim>\<open>else\<close> is \<^verbatim>\<open>assert False\<close>.\<close>

definition is_commutative :: "int \<Rightarrow> error + bool" where
  "is_commutative type =
     (if type \<le> T_LOGICAL_AND then Inr True
      else if type \<le> T_GREATER_OR_EQUAL then Inr False
      else if type \<le> T_EQUAL then Inr True
      else if type \<le> T_CONCAT then Inr False
      else if type \<le> T_ADD then Inr True
      else if type \<le> T_SUBTRACT then Inr False
      else if type \<le> T_MULTIPLY then Inr True
      else if type \<le> T_MOD then Inr False
      else if type \<le> T_POW then Inr False
      else Inl AssertionError)"

section \<open>Python values, AST nodes and the heap\<close>

text \<open>
  A Python value held in a field of an AST node, or produced by \<^verbatim>\<open>to_dict\<close>:
  \<^verbatim>\<open>None\<close>, a bool, an int, a float (the 64 bits of its IEEE 754 double), a string, a
  reference to an \<^verbatim>\<open>AstNode\<close> instance (its \<^verbatim>\<open>id()\<close>), a list, or a dict with
  string keys (an association list in insertion order).
\<close>

type_synonym addr = nat

datatype pyval =
    PNone
  | PBool bool
  | PInt int
  | PFloat "64 word"
  | PStr string
  | PObj addr
  | PList "pyval list"
  | PDict "(string \<times> pyval) list"

text \<open>The subclasses of \<^verbatim>\<open>AstNode\<close> declared in ljd/ast/nodes.py.\<close>

datatype cls =
    FunctionDefinition | Block | TableConstructor | ArrayRecord | TableRecord
  | Assignment | BinaryOperator | UnaryOperator
  | StatementsList | IdentifiersList | RecordsList | VariablesList | ExpressionsList
  | Identifier | MULTRES | GetItem | Vararg | FunctionCall | If_node | ElseIf
  | UnconditionalWarp | ConditionalWarp | IteratorWarp | NumericLoopWarp | EndWarp
  | Return | Break | While | RepeatUntil | NumericFor | IteratorFor
  | Constant | Primitive | NoOp

text \<open>\<^verbatim>\<open>cls.__name__\<close>; the model's \<open>If_node\<close> is the class \<^verbatim>\<open>If\<close>.\<close>

fun class_name :: "cls \<Rightarrow> string" where
  "class_name FunctionDefinition = ''FunctionDefinition''"
| "class_name Block = ''Block''"
| "class_name TableConstructor = ''TableConstructor''"
| "class_name ArrayRecord = ''ArrayRecord''"
| "class_name TableRecord = ''TableRecord''"
| "class_name Assignment = ''Assignment''"
| "class_name BinaryOperator = ''BinaryOperator''"
| "class_name UnaryOperator = ''UnaryOperator''"
| "class_name StatementsList = ''StatementsList''"
| "class_name IdentifiersList = ''IdentifiersList''"
| "class_name RecordsList = ''RecordsList''"
| "class_name VariablesList = ''VariablesList''"
| "class_name ExpressionsList = ''ExpressionsList''"
| "class_name Identifier = ''Identifier''"
| "class_name MULTRES = ''MULTRES''"
| "class_name GetItem = ''GetItem''"
| "class_name Vararg = ''Vararg''"
| "class_name FunctionCall = ''FunctionCall''"
| "class_name If_node = ''If''"
| "class_name ElseIf = ''ElseIf''"
| "class_name UnconditionalWarp = ''UnconditionalWarp''"
| "class_name ConditionalWarp = ''ConditionalWarp''"
| "class_name IteratorWarp = ''IteratorWarp''"
| "class_name NumericLoopWarp = ''NumericLoopWarp''"
| "class_name EndWarp = ''EndWarp''"
| "class_name Return = ''Return''"
| "class_name Break = ''Break''"
| "class_name While = ''While''"
| "class_name RepeatUntil = ''RepeatUntil''"
| "class_name NumericFor = ''NumericFor''"
| "class_name IteratorFor = ''IteratorFor''"
| "class_name Constant = ''Constant''"
| "class_name Primitive = ''Primitive''"
| "class_name NoOp = ''NoOp''"

text \<open>
  \<^verbatim>\<open>subclass_name_mapping(AstNode)\<close>: every direct and indirect subclass under its name
  (the four list classes are subclasses of \<^verbatim>\<open>StatementsList\<close>). \<^verbatim>\<open>AstNode\<close> itself
  is not a key.
\<close>

definition all_classes :: "cls list" where
  "all_classes =
     [FunctionDefinition, Block, TableConstructor, ArrayRecord, TableRecord,
      Assignment, BinaryOperator, UnaryOperator,
      StatementsList, IdentifiersList, RecordsList, VariablesList, ExpressionsList,
      Identifier, MULTRES, GetItem, Vararg, FunctionCall, If_node, ElseIf,
      UnconditionalWarp, ConditionalWarp, IteratorWarp, NumericLoopWarp, EndWarp,
      Return, Break, While, RepeatUntil, NumericFor, IteratorFor,
      Constant, Primitive, NoOp]"

definition subclass_name_mapping :: "string \<Rightarrow> cls option" where
  "subclass_name_mapping = map_of (map (\<lambda>c. (class_name c, c)) all_classes)"

text \<open>The class attribute \<^verbatim>\<open>_slots\<close> (inherited from the base class where not set).\<close>

fun slots :: "cls \<Rightarrow> string list" where
  "slots FunctionDefinition = [''arguments'', ''statements'']"
| "slots Block = [''index'', ''first_address'', ''last_address'', ''contents'', ''warp'', ''loop'']"
| "slots TableConstructor = [''array'', ''records'']"
| "slots ArrayRecord = [''value'']"
| "slots TableRecord = [''key'', ''value'']"
| "slots Assignment = [''destinations'', ''expressions'']"
| "slots BinaryOperator = [''left'', ''type'', ''right'']"
| "slots UnaryOperator = [''type'', ''operand'']"
| "slots StatementsList = [''contents'']"
| "slots IdentifiersList = [''contents'']"
| "slots RecordsList = [''contents'']"
| "slots VariablesList = [''contents'']"
| "slots ExpressionsList = [''contents'']"
| "slots Identifier = [''name'', ''type'', ''slot'', ''id'']"
| "slots MULTRES = []"
| "slots GetItem = [''table'', ''key'']"
| "slots Vararg = []"
| "slots FunctionCall = [''function'', ''arguments'', ''is_method'']"
| "slots If_node = [''expression'', ''then_block'', ''elseifs'', ''else_block'']"
| "slots ElseIf = [''expression'', ''then_block'']"
| "slots UnconditionalWarp = [''type'', ''target'', ''is_uclo'']"
| "slots ConditionalWarp = [''condition'', ''true_target'', ''false_target'']"
| "slots IteratorWarp = [''variables'', ''controls'', ''body'', ''way_out'']"
| "slots NumericLoopWarp = [''index'', ''controls'', ''body'', ''way_out'']"
| "slots EndWarp = []"
| "slots Return = [''returns'']"
| "slots Break = []"
| "slots While = [''expression'', ''statements'']"
| "slots RepeatUntil = [''expression'', ''statements'']"
| "slots NumericFor = [''variable'', ''expression'', ''statements'']"
| "slots IteratorFor = [''expressions'', ''expression'', ''statements'']"
| "slots Constant = [''type'', ''value'']"
| "slots Primitive = [''type'']"
| "slots NoOp = []"

text \<open>
  An instance: its class and its instance dictionary, in assignment order. The heap is
  the list of live instances; the address of an instance (its \<^verbatim>\<open>id()\<close>) is its index.
\<close>

datatype obj = Obj (obj_class: cls) (attrs: "(string \<times> pyval) list")

type_synonym heap = "obj list"

text \<open>\<^verbatim>\<open>getattr(obj, name, default)\<close> and \<^verbatim>\<open>setattr(obj, name, value)\<close>.\<close>

definition getattr :: "obj \<Rightarrow> string \<Rightarrow> pyval \<Rightarrow> pyval" where
  "getattr ob name dflt = (case map_of (attrs ob) name of None \<Rightarrow> dflt | Some v \<Rightarrow> v)"

definition setattr :: "heap \<Rightarrow> addr \<Rightarrow> string \<Rightarrow> pyval \<Rightarrow> heap" where
  "setattr h a name v = h[a := Obj (obj_class (h ! a)) (AList.update name v (attrs (h ! a)))]"

text \<open>
  The constructors. \<open>construct c a\<close> lists the instances that \<^verbatim>\<open>c()\<close> creates when the
  next free address is \<open>a\<close>: the new instance first, then the list wrappers and the
  identifier that its \<^verbatim>\<open>__init__\<close> creates for its fields.
\<close>

definition empty_list :: "cls \<Rightarrow> obj" where
  "empty_list c = Obj c [(''contents'', PList [])]"

fun construct :: "cls \<Rightarrow> addr \<Rightarrow> obj list" where
  "construct FunctionDefinition a =
     [Obj FunctionDefinition
        [(''arguments'', PObj (a + 1)), (''statements'', PObj (a + 2)),
         (''_upvalues'', PNone), (''_debuginfo'', PNone),
         (''_instructions_count'', PInt 0), (''error'', PNone)],
      empty_list IdentifiersList, empty_list StatementsList]"
| "construct Block a =
     [Obj Block
        [(''index'', PInt (- 1)), (''warp'', PNone), (''contents'', PList []),
         (''first_address'', PInt 0), (''last_address'', PInt 0),
         (''warpins_count'', PInt 0), (''loop'', PBool False)]]"
| "construct TableConstructor a =
     [Obj TableConstructor [(''array'', PObj (a + 1)), (''records'', PObj (a + 2))],
      empty_list RecordsList, empty_list RecordsList]"
| "construct ArrayRecord a = [Obj ArrayRecord [(''value'', PNone)]]"
| "construct TableRecord a = [Obj TableRecord [(''key'', PNone), (''value'', PNone)]]"
| "construct Assignment a =
     [Obj Assignment
        [(''expressions'', PObj (a + 1)), (''destinations'', PObj (a + 2)),
         (''type'', PInt (- 1))],
      empty_list ExpressionsList, empty_list VariablesList]"
| "construct BinaryOperator a =
     [Obj BinaryOperator [(''type'', PInt (- 1)), (''left'', PNone), (''right'', PNone)]]"
| "construct UnaryOperator a =
     [Obj UnaryOperator [(''type'', PInt (- 1)), (''operand'', PNone)]]"
| "construct StatementsList a = [empty_list StatementsList]"
| "construct IdentifiersList a = [empty_list IdentifiersList]"
| "construct RecordsList a = [empty_list RecordsList]"
| "construct VariablesList a = [empty_list VariablesList]"
| "construct ExpressionsList a = [empty_list ExpressionsList]"
| "construct Identifier a =
     [Obj Identifier
        [(''name'', PNone), (''type'', PInt (- 1)), (''slot'', PInt (- 1)),
         (''id'', PInt (- 1)), (''_varinfo'', PNone)]]"
| "construct MULTRES a = [Obj MULTRES []]"
| "construct GetItem a = [Obj GetItem [(''table'', PNone), (''key'', PNone)]]"
| "construct Vararg a = [Obj Vararg []]"
| "construct FunctionCall a =
     [Obj FunctionCall
        [(''function'', PNone), (''arguments'', PObj (a + 1)), (''is_method'', PBool False)],
      empty_list ExpressionsList]"
| "construct If_node a =
     [Obj If_node
        [(''expression'', PNone), (''then_block'', PObj (a + 1)), (''elseifs'', PList []),
         (''else_block'', PObj (a + 2))],
      empty_list StatementsList, empty_list StatementsList]"
| "construct ElseIf a =
     [Obj ElseIf [(''expression'', PNone), (''then_block'', PObj (a + 1))],
      empty_list StatementsList]"
| "construct UnconditionalWarp a =
     [Obj UnconditionalWarp
        [(''type'', PInt (- 1)), (''target'', PNone), (''is_uclo'', PBool False)]]"
| "construct ConditionalWarp a =
     [Obj ConditionalWarp
        [(''condition'', PNone), (''true_target'', PNone), (''false_target'', PNone)]]"
| "construct IteratorWarp a =
     [Obj IteratorWarp
        [(''variables'', PObj (a + 1)), (''controls'', PObj (a + 2)),
         (''body'', PNone), (''way_out'', PNone)],
      empty_list VariablesList, empty_list ExpressionsList]"
| "construct NumericLoopWarp a =
     [Obj NumericLoopWarp
        [(''index'', PObj (a + 1)), (''controls'', PObj (a + 2)),
         (''body'', PNone), (''way_out'', PNone)],
      Obj Identifier
        [(''name'', PNone), (''type'', PInt (- 1)), (''slot'', PInt (- 1)),
         (''id'', PInt (- 1)), (''_varinfo'', PNone)],
      empty_list ExpressionsList]"
| "construct EndWarp a = [Obj EndWarp []]"
| "construct Return a =
     [Obj Return [(''returns'', PObj (a + 1))], empty_list ExpressionsList]"
| "construct Break a = [Obj Break []]"
| "construct While a =
     [Obj While [(''expression'', PNone), (''statements'', PObj (a + 1))],
      empty_list StatementsList]"
| "construct RepeatUntil a =
     [Obj RepeatUntil [(''expression'', PNone), (''statements'', PObj (a + 1))],
      empty_list StatementsList]"
| "construct NumericFor a =
     [Obj NumericFor
        [(''variable'', PNone), (''expressions'', PObj (a + 1)), (''statements'', PObj (a + 2))],
      empty_list ExpressionsList, empty_list StatementsList]"
| "construct IteratorFor a =
     [Obj IteratorFor
        [(''expressions'', PObj (a + 1)), (''identifiers'', PObj (a + 2)),
         (''statements'', PObj (a + 3))],
      empty_list ExpressionsList, empty_list VariablesList, empty_list StatementsList]"
| "construct Constant a = [Obj Constant [(''type'', PInt (- 1)), (''value'', PNone)]]"
| "construct Primitive a = [Obj Primitive [(''type'', PInt (- 1))]]"
| "construct NoOp a = [Obj NoOp []]"

text \<open>\<^verbatim>\<open>subcls()\<close>: the address of the new instance and the heap that holds it.\<close>

definition new :: "cls \<Rightarrow> heap \<Rightarrow> addr \<times> heap" where
  "new c h = (length h, h @ construct c (length h))"

section \<open>Serialisation: \<^verbatim>\<open>to_dict\<close> and \<^verbatim>\<open>load_dict\<close>\<close>

text \<open>
  \<^verbatim>\<open>[to_dict(item, visited) for item in obj]\<close>: the items in order, the set of visited
  ids threaded through.
\<close>

fun to_dict_items ::
  "(pyval \<Rightarrow> addr set \<Rightarrow> (pyval \<times> addr set) option) \<Rightarrow> pyval list \<Rightarrow> addr set \<Rightarrow>
   (pyval list \<times> addr set) option" where
  "to_dict_items f [] visited = Some ([], visited)"
| "to_dict_items f (item # items) visited =
     (case f item visited of
        None \<Rightarrow> None
      | Some (y, visited1) \<Rightarrow>
          (case to_dict_items f items visited1 of
             None \<Rightarrow> None
           | Some (ys, visited2) \<Rightarrow> Some (y # ys, visited2)))"

text \<open>
  The loop \<^verbatim>\<open>for name in obj._slots: d[name] = to_dict(getattr(obj, name, None), visited)\<close>.
\<close>

fun to_dict_slots ::
  "(pyval \<Rightarrow> addr set \<Rightarrow> (pyval \<times> addr set) option) \<Rightarrow> obj \<Rightarrow> string list \<Rightarrow>
   (string \<times> pyval) list \<Rightarrow> addr set \<Rightarrow> ((string \<times> pyval) list \<times> addr set) option" where
  "to_dict_slots f ob [] d visited = Some (d, visited)"
| "to_dict_slots f ob (name # names) d visited =
     (case f (getattr ob name PNone) visited of
        None \<Rightarrow> None
      | Some (y, visited1) \<Rightarrow> to_dict_slots f ob names (AList.update name y d) visited1)"

text \<open>
  \<^verbatim>\<open>to_dict(obj, visited)\<close>. The recursion follows the references of the heap, so it
  carries fuel: \<open>None\<close> is "no result within this depth of calls". (An address outside
  the heap is no Python value; it gives \<open>None\<close> too.) A value that is neither a list nor
  a node is returned as it is. \<^verbatim>\<open>obj._slots\<close> is read as the class attribute: no
  \<^verbatim>\<open>__init__\<close> sets an instance attribute of that name (see \<open>wf_heap\<close> below).
\<close>

primrec to_dict :: "nat \<Rightarrow> heap \<Rightarrow> pyval \<Rightarrow> addr set \<Rightarrow> (pyval \<times> addr set) option" where
  "to_dict 0 h obj visited = None"
| "to_dict (Suc n) h obj visited =
     (case obj of
        PList items \<Rightarrow>
          (case to_dict_items (to_dict n h) items visited of
             None \<Rightarrow> None
           | Some (ys, visited1) \<Rightarrow> Some (PList ys, visited1))
      | PObj objid \<Rightarrow>
          if \<not> objid < length h then None
          else if objid \<in> visited then
            Some (PDict [(''class'', PStr ''Ref''), (''_id'', PInt (int objid))], visited)
          else
            (case to_dict_slots (to_dict n h) (h ! objid) (slots (obj_class (h ! objid)))
                    [(''class'', PStr (class_name (obj_class (h ! objid)))),
                     (''_id'', PInt (int objid))]
                    (insert objid visited) of
               None \<Rightarrow> None
             | Some (d, visited1) \<Rightarrow> Some (PDict d, visited1))
      | _ \<Rightarrow> Some (obj, visited))"

text \<open>
  \<^verbatim>\<open>data.pop(key)\<close> on the copy of the dict: the value and the dict without the key, or
  \<^verbatim>\<open>KeyError\<close>.
\<close>

definition dict_pop :: "string \<Rightarrow> (string \<times> pyval) list \<Rightarrow> error + (pyval \<times> (string \<times> pyval) list)" where
  "dict_pop key data =
     (case map_of data key of
        None \<Rightarrow> Inl KeyError
      | Some v \<Rightarrow> Inr (v, AList.delete key data))"

text \<open>
  The integer that a float is equal to, if there is one. The double with sign bit \<open>s\<close>,
  exponent field \<open>e\<close> (11 bits) and fraction field \<open>m\<close> (52 bits) is an infinity or a
  NaN when \<open>e\<close> is 2047, is \<^verbatim>\<open>m * 2**-1074\<close> when \<open>e\<close> is 0, and is
  \<^verbatim>\<open>(2**52 + m) * 2**(e - 1075)\<close> otherwise, negated when \<open>s\<close> is 1.
\<close>

definition float_as_int :: "64 word \<Rightarrow> int option" where
  "float_as_int w =
     (let s = unat w div 2 ^ 63;
          e = unat w div 2 ^ 52 mod 2 ^ 11;
          m = unat w mod 2 ^ 52;
          sign = (if s = 0 then 1 else - 1 :: int)
      in if e = 2047 then None
         else if e = 0 then (if m = 0 then Some 0 else None)
         else if 1075 \<le> e then Some (sign * int ((2 ^ 52 + m) * 2 ^ (e - 1075)))
         else if (2 ^ 52 + m) mod 2 ^ (1075 - e) = 0
           then Some (sign * int ((2 ^ 52 + m) div 2 ^ (1075 - e)))
         else None)"

text \<open>
  The key under which \<^verbatim>\<open>mapping\<close> files an id: lists and dicts are unhashable
  (\<^verbatim>\<open>TypeError\<close>); \<^verbatim>\<open>True\<close> and \<^verbatim>\<open>False\<close> are the keys 1 and 0, and a float that
  equals an integer is that integer's key. (A NaN is filed under its bits: Python finds
  it again only through the same float object.)
\<close>

fun hash_key :: "pyval \<Rightarrow> error + pyval" where
  "hash_key (PList xs) = Inl TypeError"
| "hash_key (PDict d) = Inl TypeError"
| "hash_key (PBool b) = Inr (PInt (if b then 1 else 0))"
| "hash_key (PFloat w) =
     (case float_as_int w of Some i \<Rightarrow> Inr (PInt i) | None \<Rightarrow> Inr (PFloat w))"
| "hash_key v = Inr v"

text \<open>\<^verbatim>\<open>cls_map[cls_name]\<close>.\<close>

fun cls_map :: "pyval \<Rightarrow> error + cls" where
  "cls_map (PStr name) =
     (case subclass_name_mapping name of None \<Rightarrow> Inl KeyError | Some c \<Rightarrow> Inr c)"
| "cls_map (PList xs) = Inl TypeError"
| "cls_map (PDict d) = Inl TypeError"
| "cls_map v = Inl KeyError"

text \<open>
  The state of \<^verbatim>\<open>load_dict\<close>: the heap it allocates in, and \<^verbatim>\<open>mapping\<close>, the dict from
  serialised ids to the instances created for them. \<^verbatim>\<open>mapping\<close> is a mutable default
  argument, so one call starts with what earlier calls left in it.
\<close>

type_synonym lstate = "heap \<times> (pyval \<rightharpoonup> addr)"

lemma size_delete_le:
  "size_list f (AList.delete k xs) \<le> size_list f xs"
  by (induction xs) auto

lemma dict_pop_size:
  "dict_pop k d = Inr (v, d') \<Longrightarrow> size_list f d' \<le> size_list f d"
  by (auto simp: dict_pop_def size_delete_le split: option.splits)

text \<open>
  \<^verbatim>\<open>load_dict(data, mapping)\<close>, with the list comprehension (\<open>load_list\<close>) and the loop
  \<^verbatim>\<open>for key in data: setattr(res, key, load_dict(data[key], mapping))\<close> (\<open>load_attrs\<close>).
\<close>

function (sequential)
  load_dict :: "pyval \<Rightarrow> lstate \<Rightarrow> error + (pyval \<times> lstate)" and
  load_list :: "pyval list \<Rightarrow> lstate \<Rightarrow> error + (pyval list \<times> lstate)" and
  load_attrs :: "addr \<Rightarrow> (string \<times> pyval) list \<Rightarrow> lstate \<Rightarrow> error + lstate"
where
  "load_dict (PList items) st =
     (case load_list items st of
        Inl e \<Rightarrow> Inl e
      | Inr (ys, st1) \<Rightarrow> Inr (PList ys, st1))"
| "load_dict (PDict data) st =
     (case dict_pop ''class'' data of
        Inl e \<Rightarrow> Inl e
      | Inr (cls_name, data1) \<Rightarrow>
     (case dict_pop ''_id'' data1 of
        Inl e \<Rightarrow> Inl e
      | Inr (obj_id, data2) \<Rightarrow>
          if cls_name = PStr ''Ref'' then
            (case hash_key obj_id of
               Inl e \<Rightarrow> Inl e
             | Inr k \<Rightarrow>
                 (case snd st k of
                    None \<Rightarrow> Inl KeyError
                  | Some r \<Rightarrow> Inr (PObj r, st)))
          else
            (case cls_map cls_name of
               Inl e \<Rightarrow> Inl e
             | Inr subcls \<Rightarrow>
                 (case new subcls (fst st) of (res, g1) \<Rightarrow>
                 (case hash_key obj_id of
                    Inl e \<Rightarrow> Inl e
                  | Inr k \<Rightarrow>
                      (case load_attrs res data2 (g1, (snd st)(k \<mapsto> res)) of
                         Inl e \<Rightarrow> Inl e
                       | Inr st1 \<Rightarrow> Inr (PObj res, st1)))))))"
| "load_dict data st = Inr (data, st)"
| "load_list [] st = Inr ([], st)"
| "load_list (item # items) st =
     (case load_dict item st of
        Inl e \<Rightarrow> Inl e
      | Inr (y, st1) \<Rightarrow>
          (case load_list items st1 of
             Inl e \<Rightarrow> Inl e
           | Inr (ys, st2) \<Rightarrow> Inr (y # ys, st2)))"
| "load_attrs res [] st = Inr st"
| "load_attrs res ((key, v) # rest) st =
     (case load_dict v st of
        Inl e \<Rightarrow> Inl e
      | Inr (y, (g, m)) \<Rightarrow> load_attrs res rest (setattr g res key y, m))"
  by pat_completeness auto

termination
  by (relation "measure (\<lambda>x. case x of
        Inl (v, st) \<Rightarrow> 2 * size v
      | Inr (Inl (vs, st)) \<Rightarrow> 2 * size_list size vs + 1
      | Inr (Inr (res, kvs, st)) \<Rightarrow> 2 * size_list (size_prod (\<lambda>_. 0) size) kvs + 1)")
     (auto dest!: dict_pop_size [where f = "size_prod (\<lambda>_. 0) size"])

section \<open>The driver: ljd/tools.py\<close>

subsection \<open>\<^verbatim>\<open>decompile\<close>\<close>

text \<open>
  The stages that \<^verbatim>\<open>decompile\<close> calls live in modules that are not part of these
  sources (\<^verbatim>\<open>ljd.ast.builder\<close>, \<^verbatim>\<open>validator\<close>, \<^verbatim>\<open>mutator\<close>, \<^verbatim>\<open>locals\<close>,
  \<^verbatim>\<open>slotworks\<close>, \<^verbatim>\<open>unwarper\<close>). A call is recorded with the arguments that the source
  writes; what a stage does to the world (the AST it mutates in place, or an exception) is
  a parameter. \<^verbatim>\<open>mark_locals(ast)\<close> passes no \<^verbatim>\<open>alt_mode\<close>: \<open>None\<close>.
\<close>

datatype ('h, 'p, 'r) call =
    Call_build 'h 'p
  | Call_validate 'r bool
  | Call_pre_pass 'r
  | Call_mark_locals 'r "bool option"
  | Call_eliminate_temporary 'r bool
  | Call_unwarp 'r bool
  | Call_mark_local_definitions 'r
  | Call_primary_pass 'r

text \<open>Statements in sequence: the first exception ends the sequence.\<close>

fun run_all :: "('c \<Rightarrow> 'w \<Rightarrow> error + 'w) \<Rightarrow> 'c list \<Rightarrow> 'w \<Rightarrow> error + 'w" where
  "run_all stage [] w = Inr w"
| "run_all stage (c # cs) w =
     (case stage c w of
        Inl e \<Rightarrow> Inl e
      | Inr w1 \<Rightarrow> run_all stage cs w1)"

text \<open>
  \<^verbatim>\<open>decompile(header, prototype)\<close>. \<open>build\<close> returns the reference to the AST it built,
  or \<open>None\<close> for a value that is false under \<^verbatim>\<open>assert ast\<close>.
\<close>

definition decompile ::
  "('h \<Rightarrow> 'p \<Rightarrow> 'w \<Rightarrow> error + ('r option \<times> 'w)) \<Rightarrow>
   (('h, 'p, 'r) call \<Rightarrow> 'w \<Rightarrow> error + 'w) \<Rightarrow> 'h \<Rightarrow> 'p \<Rightarrow> 'w \<Rightarrow> error + ('r \<times> 'w)" where
  "decompile build stage header prototype w0 =
     (case build header prototype w0 of
        Inl e \<Rightarrow> Inl e
      | Inr (None, w) \<Rightarrow> Inl AssertionError
      | Inr (Some ast, w) \<Rightarrow>
          (case run_all stage
                  [Call_validate ast True,
                   Call_pre_pass ast,
                   Call_validate ast True,
                   Call_mark_locals ast None,
                   Call_eliminate_temporary ast True,
                   Call_unwarp ast False,
                   Call_mark_local_definitions ast,
                   Call_primary_pass ast,
                   Call_validate ast False,
                   Call_mark_locals ast (Some True),
                   Call_mark_local_definitions ast] w of
             Inl e \<Rightarrow> Inl e
           | Inr w1 \<Rightarrow> Inr (ast, w1)))"

text \<open>
  To observe the order of the calls, the world is paired with the log of the calls made
  so far: a stage that returns normally is logged when it is called, whatever it does.
\<close>

definition logged ::
  "('c \<Rightarrow> 'w \<Rightarrow> error + 'w) \<Rightarrow> 'c \<Rightarrow> 'c list \<times> 'w \<Rightarrow> error + ('c list \<times> 'w)" where
  "logged stage c lw =
     (case stage c (snd lw) of
        Inl e \<Rightarrow> Inl e
      | Inr w1 \<Rightarrow> Inr (fst lw @ [c], w1))"

definition logged_build ::
  "('h \<Rightarrow> 'p \<Rightarrow> 'w \<Rightarrow> error + ('r option \<times> 'w)) \<Rightarrow> 'h \<Rightarrow> 'p \<Rightarrow>
   ('h, 'p, 'r) call list \<times> 'w \<Rightarrow> error + ('r option \<times> ('h, 'p, 'r) call list \<times> 'w)" where
  "logged_build build header prototype lw =
     (case build header prototype (snd lw) of
        Inl e \<Rightarrow> Inl e
      | Inr (r, w1) \<Rightarrow> Inr (r, fst lw @ [Call_build header prototype], w1))"

subsection \<open>\<^verbatim>\<open>process_folder\<close> and the command line\<close>

text \<open>
  What the batch driver takes from outside: whether \<^verbatim>\<open>ProcessPoolExecutor()\<close> raises;
  the directories and file names that \<^verbatim>\<open>os.walk\<close> yields (each directory as its path
  relative to \<^verbatim>\<open>in_dir\<close>); pathlib's join and \<^verbatim>\<open>with_suffix('.lua')\<close> (rendered with
  \<^verbatim>\<open>str\<close>; \<^verbatim>\<open>with_suffix\<close> raises on a name that pathlib takes as empty); whether
  \<^verbatim>\<open>mkdir(parents=True, exist_ok=True)\<close> of an output directory raises; whether
  \<^verbatim>\<open>executor.submit(process_file, path_in, path_out)\<close> raises; and the outcome of the
  future of each submitted \<^verbatim>\<open>process_file(path_in, path_out)\<close>: \<open>None\<close> when it
  returned, the exception when it raised (a worker hands every exception of its call back
  to the future, \<^verbatim>\<open>SystemExit\<close> included). The worker pool
  runs the files in parallel; the model keeps only what \<^verbatim>\<open>f.result()\<close> gives, in the
  order of \<^verbatim>\<open>fs\<close>.
\<close>

record env =
  pool :: "error option"
  walk :: "(string \<times> string list) list"
  joinpath :: "string \<Rightarrow> string \<Rightarrow> string"
  with_suffix_lua :: "string \<Rightarrow> error + string"
  mkdir :: "string \<Rightarrow> error option"
  submit :: "string \<Rightarrow> string \<Rightarrow> error option"
  result :: "string \<Rightarrow> string \<Rightarrow> error option"

text \<open>A submitted future: \<^verbatim>\<open>f.path\<close> and the arguments of \<^verbatim>\<open>process_file\<close>.\<close>

record future =
  path :: string
  path_in :: string
  path_out :: string

datatype log_record =
    Debug_success string
  | Info_failed string error
  | Warning_summary string string nat nat

text \<open>
  The inner loop \<^verbatim>\<open>for name in names\<close>. The rename hook \<^verbatim>\<open>update_outputname\<close>,
  \<^verbatim>\<open>with_suffix\<close> and \<^verbatim>\<open>executor.submit\<close> run outside any \<^verbatim>\<open>try\<close>: if one of
  them raises, so does \<^verbatim>\<open>process_folder\<close>.
\<close>

fun submit_names ::
  "env \<Rightarrow> string \<Rightarrow> string \<Rightarrow> (string \<Rightarrow> error + string) option \<Rightarrow> string \<Rightarrow>
   string list \<Rightarrow> future list \<Rightarrow> error + future list" where
  "submit_names E in_dir out_dir update_outputname reldir [] fs = Inr fs"
| "submit_names E in_dir out_dir update_outputname reldir (name # names) fs =
     (case (case update_outputname of
              Some hook \<Rightarrow> hook name
            | None \<Rightarrow> with_suffix_lua E name) of
        Inl e \<Rightarrow> Inl e
      | Inr out_name \<Rightarrow>
          (case submit E (joinpath E (joinpath E in_dir reldir) name)
                         (joinpath E (joinpath E out_dir reldir) out_name) of
             Some e \<Rightarrow> Inl e
           | None \<Rightarrow>
               submit_names E in_dir out_dir update_outputname reldir names
                 (fs @ [\<lparr>path = joinpath E reldir name,
                         path_in = joinpath E (joinpath E in_dir reldir) name,
                         path_out = joinpath E (joinpath E out_dir reldir) out_name\<rparr>])))"

text \<open>
  The outer loop \<^verbatim>\<open>for root, _, names in os.walk(in_dir)\<close>; \<^verbatim>\<open>out_root.mkdir\<close> runs
  outside any \<^verbatim>\<open>try\<close> as well.
\<close>

fun submit_walk ::
  "env \<Rightarrow> string \<Rightarrow> string \<Rightarrow> (string \<Rightarrow> error + string) option \<Rightarrow>
   (string \<times> string list) list \<Rightarrow> future list \<Rightarrow> error + future list" where
  "submit_walk E in_dir out_dir update_outputname [] fs = Inr fs"
| "submit_walk E in_dir out_dir update_outputname ((reldir, names) # dirs) fs =
     (case mkdir E (joinpath E out_dir reldir) of
        Some e \<Rightarrow> Inl e
      | None \<Rightarrow>
          (case submit_names E in_dir out_dir update_outputname reldir names fs of
             Inl e \<Rightarrow> Inl e
           | Inr fs1 \<Rightarrow> submit_walk E in_dir out_dir update_outputname dirs fs1))"

text \<open>
  The loop \<^verbatim>\<open>for f in fs\<close> with its \<^verbatim>\<open>try\<close>/\<^verbatim>\<open>except Exception\<close>: the state is
  \<^verbatim>\<open>(failed, success, log)\<close>. An exception of \<^verbatim>\<open>f.result()\<close> that is no
  \<^verbatim>\<open>Exception\<close> is not caught: it leaves the loop and \<^verbatim>\<open>process_folder\<close>.
\<close>

fun collect ::
  "env \<Rightarrow> future list \<Rightarrow> (string \<times> error) list \<times> string list \<times> log_record list \<Rightarrow>
   error + ((string \<times> error) list \<times> string list \<times> log_record list)" where
  "collect E [] acc = Inr acc"
| "collect E (f # fs) (failed, success, log) =
     (case result E (path_in f) (path_out f) of
        None \<Rightarrow> collect E fs (failed, success @ [path f], log @ [Debug_success (path f)])
      | Some e \<Rightarrow>
          if is_Exception e then collect E fs (failed @ [(path f, e)], success, log)
          else Inl e)"

text \<open>\<^verbatim>\<open>process_folder\<close>: the list \<^verbatim>\<open>success\<close> it returns, and the log records it wrote.\<close>

definition process_folder ::
  "env \<Rightarrow> string \<Rightarrow> string \<Rightarrow> (string \<Rightarrow> error + string) option \<Rightarrow>
   error + (string list \<times> log_record list)" where
  "process_folder E in_dir out_dir update_outputname =
     (case pool E of
        Some e \<Rightarrow> Inl e
      | None \<Rightarrow>
     (case submit_walk E in_dir out_dir update_outputname (walk E) [] of
        Inl e \<Rightarrow> Inl e
      | Inr fs \<Rightarrow>
          (case collect E fs ([], [], []) of
             Inl e \<Rightarrow> Inl e
           | Inr (failed, success, log) \<Rightarrow>
               Inr (success,
                    log @ map (\<lambda>(p, e). Info_failed p e) failed
                        @ [Warning_summary in_dir out_dir (length success) (length failed)]))))"

text \<open>
  The module run as a program: \<^verbatim>\<open>process_folder(sys.argv[1], sys.argv[2])\<close>, its value
  dropped. The interpreter exits with status 0 when the module body ends, and with the
  status of the exception when one leaves it (\<^verbatim>\<open>IndexError\<close> for a missing argument).
\<close>

definition main :: "env \<Rightarrow> string list \<Rightarrow> int" where
  "main E argv =
     (case argv of
        prog # in_dir # out_dir # rest \<Rightarrow>
          (case process_folder E in_dir out_dir None of
             Inl e \<Rightarrow> exit_status e
           | Inr r \<Rightarrow> 0)
      | _ \<Rightarrow> exit_status IndexError)"

text \<open>For stating what the batch does: a future whose \<^verbatim>\<open>result()\<close> raised nothing.\<close>

definition succeeded :: "env \<Rightarrow> future \<Rightarrow> bool" where
  "succeeded E f = (result E (path_in f) (path_out f) = None)"

text \<open>A future whose \<^verbatim>\<open>result()\<close> raised what \<^verbatim>\<open>except Exception\<close> does not catch.\<close>

definition uncaught :: "env \<Rightarrow> future \<Rightarrow> bool" where
  "uncaught E f =
     (case result E (path_in f) (path_out f) of None \<Rightarrow> False | Some e \<Rightarrow> \<not> is_Exception e)"

text \<open>
  The futures of a batch whose output names are given by \<open>rename\<close>: one for every name of
  every directory of the walk, in the order of the walk.
\<close>

definition submitted :: "env \<Rightarrow> string \<Rightarrow> string \<Rightarrow> (string \<Rightarrow> string) \<Rightarrow> future list" where
  "submitted E in_dir out_dir rename =
     concat (map (\<lambda>(reldir, names).
        map (\<lambda>name. \<lparr>path = joinpath E reldir name,
                      path_in = joinpath E (joinpath E in_dir reldir) name,
                      path_out = joinpath E (joinpath E out_dir reldir) (rename name)\<rparr>) names)
        (walk E))"

text \<open>
  Nothing raises before the results are collected: the pool is created, every output
  directory is made, every name of the walk gets its output name \<open>rename name\<close> (from the
  rename hook if there is one, from \<^verbatim>\<open>with_suffix\<close> otherwise), and every file is
  submitted.
\<close>

definition all_submitted ::
  "env \<Rightarrow> string \<Rightarrow> string \<Rightarrow> (string \<Rightarrow> error + string) option \<Rightarrow> (string \<Rightarrow> string) \<Rightarrow> bool" where
  "all_submitted E in_dir out_dir update_outputname rename \<longleftrightarrow>
     pool E = None \<and>
     list_all (\<lambda>(reldir, names).
        mkdir E (joinpath E out_dir reldir) = None \<and>
        list_all (\<lambda>name.
           (case update_outputname of Some hook \<Rightarrow> hook name | None \<Rightarrow> with_suffix_lua E name)
             = Inr (rename name) \<and>
           submit E (joinpath E (joinpath E in_dir reldir) name)
                    (joinpath E (joinpath E out_dir reldir) (rename name)) = None) names)
       (walk E)"

text \<open>
  What a batch over the futures \<open>fs\<close> returns and logs: the paths of the futures that
  succeeded; a \<^verbatim>\<open>SUCCESS\<close> record for each of them, then a \<^verbatim>\<open>FAILED\<close> record with its
  exception for each of the others, then the summary.
\<close>

definition report ::
  "env \<Rightarrow> string \<Rightarrow> string \<Rightarrow> future list \<Rightarrow> string list \<times> log_record list" where
  "report E in_dir out_dir fs =
     (map path (filter (succeeded E) fs),
      map (\<lambda>f. Debug_success (path f)) (filter (succeeded E) fs) @
      map (\<lambda>f. Info_failed (path f) (the (result E (path_in f) (path_out f))))
        (filter (\<lambda>f. \<not> succeeded E f) fs) @
      [Warning_summary in_dir out_dir
         (length (filter (succeeded E) fs))
         (length (filter (\<lambda>f. \<not> succeeded E f) fs))])"

text \<open>
  A directory of three files. In \<open>E1\<close> decompiling the second file raises
  \<^verbatim>\<open>ValueError\<close>; in \<open>E2\<close> it ends in \<^verbatim>\<open>sys.exit(3)\<close>.
\<close>

definition E1 :: env where
  "E1 = \<lparr>pool = None,
         walk = [(''.'', [''good.luac'', ''bad.luac'', ''fine.luac''])],
         joinpath = (\<lambda>a b. if a = ''.'' then b else if b = ''.'' then a else a @ ''/'' @ b),
         with_suffix_lua = (\<lambda>n. Inr (takeWhile (\<lambda>c. c \<noteq> CHR ''.'') n @ ''.lua'')),
         mkdir = (\<lambda>d. None),
         submit = (\<lambda>pin pout. None),
         result = (\<lambda>pin pout. if pin = ''in/bad.luac'' then Some ValueError else None)\<rparr>"

definition E2 :: env where
  "E2 = E1\<lparr>result := (\<lambda>pin pout. if pin = ''in/bad.luac'' then Some (SystemExit 3) else None)\<rparr>"

section \<open>The visitor traversal: the \<^verbatim>\<open>_accept\<close> methods\<close>

text \<open>
  What a traversal can be observed to do: the calls of visitor hooks, in order, each with
  the visitor (the identity of the visitor object), the name of the hook and the node.
  The state also holds the two class attributes of \<^verbatim>\<open>TableConstructor\<close>, which all
  traversals of the process share: \<^verbatim>\<open>anti_loop\<close> and \<^verbatim>\<open>cur_visitor\<close>.
\<close>

record vstate =
  events :: "(nat \<times> string \<times> addr) list"
  anti_loop :: "addr set"
  cur_visitor :: "nat option"

text \<open>
  The result of a traversal: \<open>None\<close> when the fuel (the depth of nested \<^verbatim>\<open>_accept\<close>
  calls) does not suffice, an exception, or the state after it.
\<close>

type_synonym vres = "(error + vstate) option"

text \<open>
  The statements of an \<^verbatim>\<open>_accept\<close> body, which are calls of four methods of the
  visitor: \<^verbatim>\<open>visitor._visit_node(visitor.NAME, self)\<close>, \<^verbatim>\<open>visitor._visit(self.FIELD)\<close>,
  \<^verbatim>\<open>visitor._visit_list(self.FIELD)\<close> and \<^verbatim>\<open>visitor._leave_node(visitor.NAME, self)\<close>.
\<close>

datatype step = VisitNode string | Visit string | VisitList string | LeaveNode string

text \<open>
  The body of \<^verbatim>\<open>_accept\<close> of each class, statement by statement. For
  \<^verbatim>\<open>TableConstructor\<close> these are the statements after the guard; the body of \<^verbatim>\<open>NoOp\<close>
  is \<^verbatim>\<open>pass\<close>.
\<close>

fun accept_body :: "cls \<Rightarrow> step list" where
  "accept_body FunctionDefinition =
     [VisitNode ''visit_function_definition'', Visit ''arguments'', Visit ''statements'',
      LeaveNode ''leave_function_definition'']"
| "accept_body Block =
     [VisitNode ''visit_block'', VisitList ''contents'', Visit ''warp'', LeaveNode ''leave_block'']"
| "accept_body TableConstructor =
     [VisitNode ''visit_table_constructor'', Visit ''array'', Visit ''records'',
      LeaveNode ''leave_table_constructor'']"
| "accept_body ArrayRecord =
     [VisitNode ''visit_array_record'', Visit ''value'', LeaveNode ''leave_array_record'']"
| "accept_body TableRecord =
     [VisitNode ''visit_table_record'', Visit ''key'', Visit ''value'',
      LeaveNode ''leave_table_record'']"
| "accept_body Assignment =
     [VisitNode ''visit_assignment'', Visit ''expressions'', Visit ''destinations'',
      LeaveNode ''leave_assignment'']"
| "accept_body BinaryOperator =
     [VisitNode ''visit_binary_operator'', Visit ''left'', Visit ''right'',
      LeaveNode ''leave_binary_operator'']"
| "accept_body UnaryOperator =
     [VisitNode ''visit_unary_operator'', Visit ''operand'', LeaveNode ''leave_unary_operator'']"
| "accept_body StatementsList =
     [VisitNode ''visit_statements_list'', VisitList ''contents'',
      LeaveNode ''leave_statements_list'']"
| "accept_body IdentifiersList =
     [VisitNode ''visit_identifiers_list'', VisitList ''contents'',
      LeaveNode ''leave_identifiers_list'']"
| "accept_body RecordsList =
     [VisitNode ''visit_records_list'', VisitList ''contents'', LeaveNode ''leave_records_list'']"
| "accept_body VariablesList =
     [VisitNode ''visit_variables_list'', VisitList ''contents'',
      LeaveNode ''leave_variables_list'']"
| "accept_body ExpressionsList =
     [VisitNode ''visit_expressions_list'', VisitList ''contents'',
      LeaveNode ''leave_expressions_list'']"
| "accept_body Identifier = [VisitNode ''visit_identifier'', LeaveNode ''leave_identifier'']"
| "accept_body MULTRES = [VisitNode ''visit_multres'', LeaveNode ''leave_multres'']"
| "accept_body GetItem =
     [VisitNode ''visit_table_element'', Visit ''key'', Visit ''table'',
      LeaveNode ''leave_table_element'']"
| "accept_body Vararg = [VisitNode ''visit_vararg'', LeaveNode ''leave_vararg'']"
| "accept_body FunctionCall =
     [VisitNode ''visit_function_call'', Visit ''arguments'', Visit ''function'',
      LeaveNode ''leave_function_call'']"
| "accept_body If_node =
     [VisitNode ''visit_if'', Visit ''expression'', Visit ''then_block'', VisitList ''elseifs'',
      Visit ''else_block'', LeaveNode ''leave_if'']"
| "accept_body ElseIf =
     [VisitNode ''visit_elseif'', Visit ''expression'', Visit ''then_block'',
      LeaveNode ''leave_elseif'']"
| "accept_body UnconditionalWarp =
     [VisitNode ''visit_unconditional_warp'', LeaveNode ''leave_unconditional_warp'']"
| "accept_body ConditionalWarp =
     [VisitNode ''visit_conditional_warp'', Visit ''condition'',
      LeaveNode ''leave_conditional_warp'']"
| "accept_body IteratorWarp =
     [VisitNode ''visit_iterator_warp'', Visit ''variables'', Visit ''controls'',
      LeaveNode ''leave_iterator_warp'']"
| "accept_body NumericLoopWarp =
     [VisitNode ''visit_numeric_loop_warp'', Visit ''index'', Visit ''controls'',
      LeaveNode ''leave_numeric_loop_warp'']"
| "accept_body EndWarp = [VisitNode ''visit_end_warp'', LeaveNode ''leave_end_warp'']"
| "accept_body Return = [VisitNode ''visit_return'', Visit ''returns'', LeaveNode ''leave_return'']"
| "accept_body Break = [VisitNode ''visit_break'', LeaveNode ''leave_break'']"
| "accept_body While =
     [VisitNode ''visit_while'', Visit ''expression'', Visit ''statements'',
      LeaveNode ''leave_while'']"
| "accept_body RepeatUntil =
     [VisitNode ''visit_repeat_until'', Visit ''statements'', Visit ''expression'',
      LeaveNode ''leave_repeat_until'']"
| "accept_body NumericFor =
     [VisitNode ''visit_numeric_for'', Visit ''variable'', Visit ''expressions'',
      Visit ''statements'', LeaveNode ''leave_numeric_for'']"
| "accept_body IteratorFor =
     [VisitNode ''visit_iterator_for'', Visit ''expressions'', Visit ''identifiers'',
      Visit ''statements'', LeaveNode ''leave_iterator_for'']"
| "accept_body Constant = [VisitNode ''visit_constant'', LeaveNode ''leave_constant'']"
| "accept_body Primitive = [VisitNode ''visit_primitive'', LeaveNode ''leave_primitive'']"
| "accept_body NoOp = []"

text \<open>
  Modelled from the spec: the class \<^verbatim>\<open>Visitor\<close> of \<^verbatim>\<open>ljd.ast.traverse\<close> is not among
  the sources. By the spec's visitor contract each node kind has an enter hook and a leave
  hook: \<^verbatim>\<open>_visit_node(hook, node)\<close> and \<^verbatim>\<open>_leave_node(hook, node)\<close> call the hook on the
  node. What a hook does is the visitor's own business; the call is recorded as an event.
\<close>

definition call_hook :: "nat \<Rightarrow> string \<Rightarrow> addr \<Rightarrow> vstate \<Rightarrow> vstate" where
  "call_hook visitor name node st = st\<lparr>events := events st @ [(visitor, name, node)]\<rparr>"

text \<open>
  Modelled from the spec: \<^verbatim>\<open>Visitor._visit\<close> is not among the sources. By the spec the
  default traversal recurses into the children: \<^verbatim>\<open>_visit(node)\<close> is
  \<^verbatim>\<open>node._accept(visitor)\<close>, here the parameter \<open>acc\<close>. What is visited must be a node;
  any other value has no \<^verbatim>\<open>_accept\<close>.
\<close>

fun visit :: "(addr \<Rightarrow> vstate \<Rightarrow> vres) \<Rightarrow> pyval \<Rightarrow> vstate \<Rightarrow> vres" where
  "visit acc (PObj node) st = acc node st"
| "visit acc v st = Some (Inl AttributeError)"

text \<open>
  Modelled from the spec: \<^verbatim>\<open>Visitor._visit_list\<close> is not among the sources. By the spec
  list wrappers are traversed uniformly: \<^verbatim>\<open>_visit_list(nodes)\<close> visits the elements in
  order, and the first exception ends it.
\<close>

fun visit_list :: "(addr \<Rightarrow> vstate \<Rightarrow> vres) \<Rightarrow> pyval list \<Rightarrow> vstate \<Rightarrow> vres" where
  "visit_list acc [] st = Some (Inr st)"
| "visit_list acc (node # nodes) st =
     (case visit acc node st of
        None \<Rightarrow> None
      | Some (Inl e) \<Rightarrow> Some (Inl e)
      | Some (Inr st1) \<Rightarrow> visit_list acc nodes st1)"

text \<open>
  One statement of a body. \<^verbatim>\<open>self.FIELD\<close> reads the instance dictionary; a missing
  attribute is \<^verbatim>\<open>AttributeError\<close>, and a field handed to \<^verbatim>\<open>_visit_list\<close> that is
  not a list is \<^verbatim>\<open>TypeError\<close>.
\<close>

fun run_step :: "(addr \<Rightarrow> vstate \<Rightarrow> vres) \<Rightarrow> obj \<Rightarrow> nat \<Rightarrow> addr \<Rightarrow> step \<Rightarrow> vstate \<Rightarrow> vres" where
  "run_step acc ob visitor self (VisitNode name) st = Some (Inr (call_hook visitor name self st))"
| "run_step acc ob visitor self (LeaveNode name) st = Some (Inr (call_hook visitor name self st))"
| "run_step acc ob visitor self (Visit field) st =
     (case map_of (attrs ob) field of
        None \<Rightarrow> Some (Inl AttributeError)
      | Some x \<Rightarrow> visit acc x st)"
| "run_step acc ob visitor self (VisitList field) st =
     (case map_of (attrs ob) field of
        None \<Rightarrow> Some (Inl AttributeError)
      | Some (PList nodes) \<Rightarrow> visit_list acc nodes st
      | Some x \<Rightarrow> Some (Inl TypeError))"

fun run_steps :: "(addr \<Rightarrow> vstate \<Rightarrow> vres) \<Rightarrow> obj \<Rightarrow> nat \<Rightarrow> addr \<Rightarrow> step list \<Rightarrow> vstate \<Rightarrow> vres" where
  "run_steps acc ob visitor self [] st = Some (Inr st)"
| "run_steps acc ob visitor self (s # ss) st =
     (case run_step acc ob visitor self s st of
        None \<Rightarrow> None
      | Some (Inl e) \<Rightarrow> Some (Inl e)
      | Some (Inr st1) \<Rightarrow> run_steps acc ob visitor self ss st1)"

text \<open>
  The guard at the head of \<^verbatim>\<open>TableConstructor._accept\<close>: the state after the test of
  \<^verbatim>\<open>cur_visitor\<close>.
\<close>

definition enter_table :: "nat \<Rightarrow> vstate \<Rightarrow> vstate" where
  "enter_table visitor st =
     (case cur_visitor st of
        Some c \<Rightarrow>
          if c \<noteq> visitor then st\<lparr>anti_loop := {}, cur_visitor := Some visitor\<rparr> else st
      | None \<Rightarrow> st\<lparr>cur_visitor := Some visitor\<rparr>)"

text \<open>
  \<^verbatim>\<open>node._accept(visitor)\<close> for the node at address \<open>self\<close>, dispatched on its class.
  (An address outside the heap is no Python value; it gives \<open>None\<close>.)
\<close>

primrec accept :: "nat \<Rightarrow> heap \<Rightarrow> nat \<Rightarrow> addr \<Rightarrow> vstate \<Rightarrow> vres" where
  "accept 0 h visitor self st = None"
| "accept (Suc n) h visitor self st =
     (if \<not> self < length h then None
      else if obj_class (h ! self) = TableConstructor then
        (if self \<in> anti_loop (enter_table visitor st) then Some (Inr (enter_table visitor st))
         else run_steps (accept n h visitor) (h ! self) visitor self (accept_body TableConstructor)
                ((enter_table visitor st)\<lparr>anti_loop := insert self (anti_loop (enter_table visitor st))\<rparr>))
      else run_steps (accept n h visitor) (h ! self) visitor self
             (accept_body (obj_class (h ! self))) st)"

text \<open>
  Modelled from the spec: the hooks of the visitors are not among the sources. By the spec
  a visitor is reentrant at the granularity of distinct roots: a hook, besides what it does
  with its node, may start traversals of other roots, by its own visitor or by another
  visitor object. \<open>hk v name a\<close> lists the traversals (visitor and root) that the hook
  \<open>name\<close> of visitor \<open>v\<close> starts when it is called on node \<open>a\<close>, in order.
\<close>

type_synonym hooks = "nat \<Rightarrow> string \<Rightarrow> addr \<Rightarrow> (nat \<times> addr) list"

text \<open>
  The traversals that a hook starts, one after the other: \<^verbatim>\<open>root._accept(visitor)\<close> is
  the parameter \<open>acc\<close>, and the first exception ends the hook.
\<close>

fun run_traversals :: "(nat \<Rightarrow> addr \<Rightarrow> vstate \<Rightarrow> vres) \<Rightarrow> (nat \<times> addr) list \<Rightarrow> vstate \<Rightarrow> vres" where
  "run_traversals acc [] st = Some (Inr st)"
| "run_traversals acc ((visitor, root) # ts) st =
     (case acc visitor root st of
        None \<Rightarrow> None
      | Some (Inl e) \<Rightarrow> Some (Inl e)
      | Some (Inr st1) \<Rightarrow> run_traversals acc ts st1)"

text \<open>
  One statement of a body, and a body, when the hooks start traversals: the call of the
  hook is recorded, then its traversals run; \<^verbatim>\<open>_visit\<close> and \<^verbatim>\<open>_visit_list\<close> are as
  before.
\<close>

fun hooked_step ::
  "(nat \<Rightarrow> addr \<Rightarrow> vstate \<Rightarrow> vres) \<Rightarrow> hooks \<Rightarrow> obj \<Rightarrow> nat \<Rightarrow> addr \<Rightarrow> step \<Rightarrow> vstate \<Rightarrow> vres" where
  "hooked_step acc hk ob visitor self (VisitNode name) st =
     run_traversals acc (hk visitor name self) (call_hook visitor name self st)"
| "hooked_step acc hk ob visitor self (LeaveNode name) st =
     run_traversals acc (hk visitor name self) (call_hook visitor name self st)"
| "hooked_step acc hk ob visitor self (Visit field) st =
     (case map_of (attrs ob) field of
        None \<Rightarrow> Some (Inl AttributeError)
      | Some x \<Rightarrow> visit (acc visitor) x st)"
| "hooked_step acc hk ob visitor self (VisitList field) st =
     (case map_of (attrs ob) field of
        None \<Rightarrow> Some (Inl AttributeError)
      | Some (PList nodes) \<Rightarrow> visit_list (acc visitor) nodes st
      | Some x \<Rightarrow> Some (Inl TypeError))"

fun hooked_steps ::
  "(nat \<Rightarrow> addr \<Rightarrow> vstate \<Rightarrow> vres) \<Rightarrow> hooks \<Rightarrow> obj \<Rightarrow> nat \<Rightarrow> addr \<Rightarrow> step list \<Rightarrow> vstate \<Rightarrow> vres" where
  "hooked_steps acc hk ob visitor self [] st = Some (Inr st)"
| "hooked_steps acc hk ob visitor self (s # ss) st =
     (case hooked_step acc hk ob visitor self s st of
        None \<Rightarrow> None
      | Some (Inl e) \<Rightarrow> Some (Inl e)
      | Some (Inr st1) \<Rightarrow> hooked_steps acc hk ob visitor self ss st1)"

text \<open>
  \<^verbatim>\<open>node._accept(visitor)\<close> when the hooks start traversals: the same dispatch and the
  same guard of \<^verbatim>\<open>TableConstructor._accept\<close> as in \<open>accept\<close>, which is the case of
  hooks that start none.
\<close>

primrec accept_hooked :: "hooks \<Rightarrow> nat \<Rightarrow> heap \<Rightarrow> nat \<Rightarrow> addr \<Rightarrow> vstate \<Rightarrow> vres" where
  "accept_hooked hk 0 h visitor self st = None"
| "accept_hooked hk (Suc n) h visitor self st =
     (if \<not> self < length h then None
      else if obj_class (h ! self) = TableConstructor then
        (if self \<in> anti_loop (enter_table visitor st) then Some (Inr (enter_table visitor st))
         else hooked_steps (accept_hooked hk n h) hk (h ! self) visitor self
                (accept_body TableConstructor)
                ((enter_table visitor st)\<lparr>anti_loop := insert self (anti_loop (enter_table visitor st))\<rparr>))
      else hooked_steps (accept_hooked hk n h) hk (h ! self) visitor self
             (accept_body (obj_class (h ! self))) st)"

text \<open>
  The fields through which a warp refers to blocks, and the heap in which every warp has
  lost these fields.
\<close>

fun warp_targets :: "cls \<Rightarrow> string list" where
  "warp_targets UnconditionalWarp = [''target'']"
| "warp_targets ConditionalWarp = [''true_target'', ''false_target'']"
| "warp_targets IteratorWarp = [''body'', ''way_out'']"
| "warp_targets NumericLoopWarp = [''body'', ''way_out'']"
| "warp_targets c = []"

definition cut_targets :: "heap \<Rightarrow> heap" where
  "cut_targets h =
     map (\<lambda>ob. Obj (obj_class ob)
                  (filter (\<lambda>kv. fst kv \<notin> set (warp_targets (obj_class ob))) (attrs ob))) h"

subsection \<open>Notions for stating the traversal properties\<close>

text \<open>The events of \<open>st'\<close> are those of \<open>st\<close> followed by further ones.\<close>

definition extends :: "vstate \<Rightarrow> vstate \<Rightarrow> bool" where
  "extends st st' = (\<exists>t. events st' = events st @ t)"

text \<open>
  No other visitor has been the last to enter a \<^verbatim>\<open>TableConstructor\<close>: the guard will not
  clear \<^verbatim>\<open>anti_loop\<close> for \<open>v\<close>.
\<close>

definition same_visitor :: "nat \<Rightarrow> vstate \<Rightarrow> bool" where
  "same_visitor v st = (cur_visitor st = None \<or> cur_visitor st = Some v)"

text \<open>
  The nodes on which the hook \<^verbatim>\<open>visit_table_constructor\<close> of visitor \<open>v\<close> was called
  between the states \<open>st\<close> and \<open>st'\<close>, in order.
\<close>

definition tables_entered :: "nat \<Rightarrow> vstate \<Rightarrow> vstate \<Rightarrow> addr list" where
  "tables_entered v st st' =
     map (\<lambda>e. snd (snd e))
       (filter (\<lambda>e. fst e = v \<and> fst (snd e) = ''visit_table_constructor'')
          (drop (length (events st)) (events st')))"

text \<open>
  What one traversal by visitor \<open>v\<close> from \<open>st\<close> to \<open>st'\<close> maintains: no table is entered
  twice, every table entered is in \<^verbatim>\<open>anti_loop\<close> afterwards, \<^verbatim>\<open>cur_visitor\<close> is \<open>v\<close>
  as soon as a table was reached, and \<^verbatim>\<open>anti_loop\<close> only grows unless another visitor
  owned it at the start.
\<close>

definition guard_inv :: "nat \<Rightarrow> vstate \<Rightarrow> vstate \<Rightarrow> bool" where
  "guard_inv v st st' \<longleftrightarrow>
     extends st st' \<and>
     distinct (tables_entered v st st') \<and>
     set (tables_entered v st st') \<subseteq> anti_loop st' \<and>
     (cur_visitor st' = Some v \<or>
      (anti_loop st' = anti_loop st \<and> cur_visitor st' = cur_visitor st \<and> tables_entered v st st' = [])) \<and>
     (same_visitor v st \<longrightarrow>
        anti_loop st \<subseteq> anti_loop st' \<and> set (tables_entered v st st') \<inter> anti_loop st = {})"

text \<open>The values that a statement of a body hands to \<^verbatim>\<open>_visit\<close>.\<close>

fun step_children :: "obj \<Rightarrow> step \<Rightarrow> pyval list" where
  "step_children ob (Visit f) = (case map_of (attrs ob) f of None \<Rightarrow> [] | Some x \<Rightarrow> [x])"
| "step_children ob (VisitList f) =
     (case map_of (attrs ob) f of Some (PList xs) \<Rightarrow> xs | _ \<Rightarrow> [])"
| "step_children ob s = []"

text \<open>The nodes among a list of values.\<close>

fun nodes_of :: "pyval list \<Rightarrow> addr list" where
  "nodes_of [] = []"
| "nodes_of (PObj b # xs) = b # nodes_of xs"
| "nodes_of (x # xs) = nodes_of xs"

text \<open>The roots of the traversals that the hook of a statement starts.\<close>

fun hook_roots :: "hooks \<Rightarrow> nat \<Rightarrow> addr \<Rightarrow> step \<Rightarrow> addr list" where
  "hook_roots hk v self (VisitNode name) = map snd (hk v name self)"
| "hook_roots hk v self (LeaveNode name) = map snd (hk v name self)"
| "hook_roots hk v self s = []"

text \<open>
  The nodes that \<^verbatim>\<open>_accept\<close> of the node at \<open>a\<close> goes on to with visitor \<open>v\<close>: the
  nodes it visits, and the roots of the traversals that its hooks start.
\<close>

definition traversed_from :: "hooks \<Rightarrow> nat \<Rightarrow> heap \<Rightarrow> addr \<Rightarrow> addr list" where
  "traversed_from hk v h a =
     concat (map (\<lambda>s. nodes_of (step_children (h ! a) s) @ hook_roots hk v a s)
               (accept_body (obj_class (h ! a))))"

text \<open>
  Every node gone on to is a node of the heap, and \<open>rank\<close> decreases from a node to
  these, except from a \<^verbatim>\<open>TableConstructor\<close>: every cycle among the visited fields and
  the roots of the hooks passes through a table constructor.
\<close>

definition cycles_pass_tables :: "(addr \<Rightarrow> nat) \<Rightarrow> hooks \<Rightarrow> nat \<Rightarrow> heap \<Rightarrow> bool" where
  "cycles_pass_tables rank hk v h =
     list_all (\<lambda>a. list_all (\<lambda>b. b < length h \<and>
                                  (obj_class (h ! a) = TableConstructor \<or> rank b < rank a))
                      (traversed_from hk v h a))
       [0..<length h]"

text \<open>
  Every traversal that a hook of visitor \<open>v\<close> starts is a traversal by \<open>v\<close> itself: no
  hook of \<open>v\<close> hands a node to another visitor object.
\<close>

definition own_traversals :: "nat \<Rightarrow> hooks \<Rightarrow> bool" where
  "own_traversals v hk \<longleftrightarrow> (\<forall>name a. \<forall>t\<in>set (hk v name a). fst t = v)"

text \<open>The content of \<^verbatim>\<open>anti_loop\<close> once the guard has run for visitor \<open>v\<close>.\<close>

definition eff :: "nat \<Rightarrow> vstate \<Rightarrow> addr set" where
  "eff v st = (if same_visitor v st then anti_loop st else {})"

text \<open>The number of table constructors of the heap that visitor \<open>v\<close> can still enter.\<close>

definition unentered :: "heap \<Rightarrow> nat \<Rightarrow> vstate \<Rightarrow> nat" where
  "unentered h v st =
     card ({a. a < length h \<and> obj_class (h ! a) = TableConstructor} - eff v st)"

subsection \<open>Example heaps\<close>

text \<open>The state of a fresh process: no hook called, the class attributes as declared.\<close>

definition st0 :: vstate where
  "st0 = \<lparr>events = [], anti_loop = {}, cur_visitor = None\<rparr>"

text \<open>
  The call \<^verbatim>\<open>print(1)\<close> (node 0) and the indexing \<^verbatim>\<open>print[1]\<close> (node 4), sharing
  their operands.
\<close>

definition h_call :: heap where
  "h_call =
     [Obj FunctionCall [(''function'', PObj 1), (''arguments'', PObj 2), (''is_method'', PBool False)],
      Obj Identifier [(''name'', PStr ''print''), (''type'', PInt 3), (''slot'', PInt (- 1)),
                      (''id'', PInt (- 1)), (''_varinfo'', PNone)],
      Obj ExpressionsList [(''contents'', PList [PObj 3])],
      Obj Constant [(''type'', PInt 0), (''value'', PInt 1)],
      Obj GetItem [(''table'', PObj 1), (''key'', PObj 3)]]"

text \<open>The states after traversing node 0 and node 4 of \<open>h_call\<close> with visitor 7.\<close>

definition st_call :: vstate where
  "st_call = \<lparr>events =
           [(7, ''visit_function_call'', 0), (7, ''visit_expressions_list'', 2),
            (7, ''visit_constant'', 3), (7, ''leave_constant'', 3),
            (7, ''leave_expressions_list'', 2), (7, ''visit_identifier'', 1),
            (7, ''leave_identifier'', 1), (7, ''leave_function_call'', 0)],
           anti_loop = {}, cur_visitor = None\<rparr>"

definition st_item :: vstate where
  "st_item = \<lparr>events =
          [(7, ''visit_table_element'', 4), (7, ''visit_constant'', 3),
           (7, ''leave_constant'', 3), (7, ''visit_identifier'', 1),
           (7, ''leave_identifier'', 1), (7, ''leave_table_element'', 4)],
          anti_loop = {}, cur_visitor = None\<rparr>"

text \<open>
  Two blocks joined by warps: block 0 ends in a conditional warp to block 3 or back to
  itself, block 3 jumps back to block 0; an iterator warp and a numeric loop warp over the
  same blocks.
\<close>

definition h_warp :: heap where
  "h_warp =
     [Obj Block [(''index'', PInt 0), (''warp'', PObj 1), (''contents'', PList []),
                 (''first_address'', PInt 0), (''last_address'', PInt 1),
                 (''warpins_count'', PInt 1), (''loop'', PBool False)],
      Obj ConditionalWarp [(''condition'', PObj 2), (''true_target'', PObj 3),
                           (''false_target'', PObj 0)],
      Obj Identifier [(''name'', PStr ''x''), (''type'', PInt 1), (''slot'', PInt 0),
                      (''id'', PInt (- 1)), (''_varinfo'', PNone)],
      Obj Block [(''index'', PInt 1), (''warp'', PObj 4), (''contents'', PList []),
                 (''first_address'', PInt 2), (''last_address'', PInt 3),
                 (''warpins_count'', PInt 1), (''loop'', PBool False)],
      Obj UnconditionalWarp [(''type'', PInt 0), (''target'', PObj 0), (''is_uclo'', PBool False)],
      Obj IteratorWarp [(''variables'', PObj 6), (''controls'', PObj 7), (''body'', PObj 3),
                        (''way_out'', PObj 0)],
      Obj VariablesList [(''contents'', PList [PObj 2])],
      Obj ExpressionsList [(''contents'', PList [])],
      Obj NumericLoopWarp [(''index'', PObj 2), (''controls'', PObj 7), (''body'', PObj 3),
                           (''way_out'', PObj 0)]]"

text \<open>A table constructor (node 0) with one record, whose value is the table itself.\<close>

definition h_cyclic :: heap where
  "h_cyclic =
     [Obj TableConstructor [(''array'', PObj 1), (''records'', PObj 2)],
      Obj RecordsList [(''contents'', PList [])],
      Obj RecordsList [(''contents'', PList [PObj 3])],
      Obj TableRecord [(''key'', PObj 4), (''value'', PObj 0)],
      Obj Constant [(''type'', PInt 2), (''value'', PStr ''self'')]]"

text \<open>
  Hooks for \<open>h_cyclic\<close>: the hook \<^verbatim>\<open>visit_table_record\<close> of visitor 7 traverses the key
  of the record with its own visitor. The state after traversing node 0 of \<open>h_cyclic\<close>
  with visitor 7 and these hooks.
\<close>

definition hk_own :: hooks where
  "hk_own v name a = (if v = 7 \<and> name = ''visit_table_record'' \<and> a = 3 then [(7, 4)] else [])"

definition st_cyclic :: vstate where
  "st_cyclic = \<lparr>events =
          [(7, ''visit_table_constructor'', 0), (7, ''visit_records_list'', 1),
           (7, ''leave_records_list'', 1), (7, ''visit_records_list'', 2),
           (7, ''visit_table_record'', 3), (7, ''visit_constant'', 4),
           (7, ''leave_constant'', 4), (7, ''visit_constant'', 4),
           (7, ''leave_constant'', 4), (7, ''leave_table_record'', 3),
           (7, ''leave_records_list'', 2), (7, ''leave_table_constructor'', 0)],
          anti_loop = {0}, cur_visitor = Some 7\<rparr>"

text \<open>A rank for \<open>h_cyclic\<close>.\<close>

definition rank_cyclic :: "addr \<Rightarrow> nat" where
  "rank_cyclic a = (if a = 3 then 1 else if a = 2 then 2 else 0)"

text \<open>
  The expressions \<^verbatim>\<open>t, x, t\<close> (node 4), where \<^verbatim>\<open>t\<close> is one table constructor
  (node 0), and another table constructor (node 5). The hook \<^verbatim>\<open>visit_identifier\<close> of
  visitor 7 hands the other table to visitor 8. The state after traversing node 4 with
  visitor 7 and these hooks.
\<close>

definition h_shared :: heap where
  "h_shared =
     [Obj TableConstructor [(''array'', PObj 1), (''records'', PObj 2)],
      Obj RecordsList [(''contents'', PList [])],
      Obj RecordsList [(''contents'', PList [])],
      Obj Identifier [(''name'', PStr ''x''), (''type'', PInt 1), (''slot'', PInt 0),
                      (''id'', PInt (- 1)), (''_varinfo'', PNone)],
      Obj ExpressionsList [(''contents'', PList [PObj 0, PObj 3, PObj 0])],
      Obj TableConstructor [(''array'', PObj 6), (''records'', PObj 7)],
      Obj RecordsList [(''contents'', PList [])],
      Obj RecordsList [(''contents'', PList [])]]"

definition hk_other :: hooks where
  "hk_other v name a = (if v = 7 \<and> name = ''visit_identifier'' \<and> a = 3 then [(8, 5)] else [])"

definition st_shared :: vstate where
  "st_shared = \<lparr>events =
          [(7, ''visit_expressions_list'', 4),
           (7, ''visit_table_constructor'', 0), (7, ''visit_records_list'', 1),
           (7, ''leave_records_list'', 1), (7, ''visit_records_list'', 2),
           (7, ''leave_records_list'', 2), (7, ''leave_table_constructor'', 0),
           (7, ''visit_identifier'', 3),
           (8, ''visit_table_constructor'', 5), (8, ''visit_records_list'', 6),
           (8, ''leave_records_list'', 6), (8, ''visit_records_list'', 7),
           (8, ''leave_records_list'', 7), (8, ''leave_table_constructor'', 5),
           (7, ''leave_identifier'', 3),
           (7, ''visit_table_constructor'', 0), (7, ''visit_records_list'', 1),
           (7, ''leave_records_list'', 1), (7, ''visit_records_list'', 2),
           (7, ''leave_records_list'', 2), (7, ''leave_table_constructor'', 0),
           (7, ''leave_expressions_list'', 4)],
          anti_loop = {0}, cur_visitor = Some 7\<rparr>"


section \<open>Notions for stating the round trip\<close>

text \<open>
  A value as a field of an AST node holds it: \<^verbatim>\<open>None\<close>, a bool, an int, a float, a
  string, a node among the first \<open>n\<close> of the heap, or a list of such values. No field
  holds a dict.
\<close>

fun wf_val :: "nat \<Rightarrow> pyval \<Rightarrow> bool" where
  "wf_val n (PObj a) = (a < n)"
| "wf_val n (PList xs) = list_all (wf_val n) xs"
| "wf_val n (PDict d) = False"
| "wf_val n v = True"

text \<open>
  Every slot of every node of the heap holds such a value, and no node has an instance
  attribute \<^verbatim>\<open>_slots\<close> of its own.
\<close>

definition wf_heap :: "heap \<Rightarrow> bool" where
  "wf_heap h =
     list_all (\<lambda>ob. map_of (attrs ob) ''_slots'' = None \<and>
                    list_all (\<lambda>name. wf_val (length h) (getattr ob name PNone))
                       (slots (obj_class ob))) h"

text \<open>
  The fields of a class that are serialised: the names in \<^verbatim>\<open>_slots\<close> that its
  \<^verbatim>\<open>__init__\<close> sets.
\<close>

definition serialised_fields :: "cls \<Rightarrow> string list" where
  "serialised_fields c =
     filter (\<lambda>name. name \<in> fst ` set (attrs (hd (construct c 0)))) (slots c)"

text \<open>A value with every node reference \<open>a\<close> replaced by \<open>f a\<close>.\<close>

fun reloc :: "(addr \<Rightarrow> addr) \<Rightarrow> pyval \<Rightarrow> pyval" where
  "reloc f (PObj a) = PObj (f a)"
| "reloc f (PList xs) = PList (map (reloc f) xs)"
| "reloc f v = v"

text \<open>The nodes that a value refers to.\<close>

fun refs :: "pyval \<Rightarrow> addr set" where
  "refs (PObj a) = {a}"
| "refs (PList xs) = (\<Union>x\<in>set xs. refs x)"
| "refs v = {}"

text \<open>The instance that \<^verbatim>\<open>mapping\<close> holds for the serialised id \<open>a\<close>.\<close>

definition image_of :: "(pyval \<rightharpoonup> addr) \<Rightarrow> addr \<Rightarrow> addr" where
  "image_of m a = the (m (PInt (int a)))"

text \<open>The number of nodes of the heap that are not in \<^verbatim>\<open>visited\<close>.\<close>

definition unvisited :: "heap \<Rightarrow> addr set \<Rightarrow> nat" where
  "unvisited h vis = card ({..<length h} - vis)"

text \<open>\<^verbatim>\<open>mapping\<close> has an entry for every visited node.\<close>

definition mapped :: "addr set \<Rightarrow> (pyval \<rightharpoonup> addr) \<Rightarrow> bool" where
  "mapped vis m = (\<forall>a\<in>vis. PInt (int a) \<in> dom m)"

text \<open>
  The instance \<open>f a\<close> of the heap \<open>g\<close> is the loaded copy of node \<open>a\<close> of \<open>h\<close>: same
  class, every slot equal up to \<open>f\<close>, and every other attribute as the constructor left
  it.
\<close>

definition node_ok :: "heap \<Rightarrow> addr set \<Rightarrow> heap \<Rightarrow> (addr \<Rightarrow> addr) \<Rightarrow> addr \<Rightarrow> bool" where
  "node_ok h vis g f a \<longleftrightarrow>
     a < length h \<and> f a < length g \<and> obj_class (g ! f a) = obj_class (h ! a) \<and>
     (\<forall>name\<in>set (slots (obj_class (h ! a))).
        refs (getattr (h ! a) name PNone) \<subseteq> vis \<and>
        getattr (g ! f a) name PNone = reloc f (getattr (h ! a) name PNone)) \<and>
     (\<forall>name. name \<notin> set (slots (obj_class (h ! a))) \<longrightarrow>
        map_of (attrs (g ! f a)) name =
        map_of (attrs (hd (construct (obj_class (h ! a)) (f a)))) name)"

text \<open>
  What loading the serialised form of a value does to the state of \<^verbatim>\<open>load_dict\<close>, when
  serialising it moved \<^verbatim>\<open>visited\<close> from \<open>vis\<close> to \<open>vis'\<close>: the instances that existed
  before are untouched (but those in \<open>X\<close>, which are under construction), the entries of
  \<^verbatim>\<open>mapping\<close> for \<open>vis\<close> are kept, and each newly visited node has a new instance of
  its own that is its loaded copy.
\<close>

definition sim :: "heap \<Rightarrow> addr set \<Rightarrow> addr set \<Rightarrow> addr set \<Rightarrow> lstate \<Rightarrow> lstate \<Rightarrow> bool" where
  "sim h X vis vis' st st' \<longleftrightarrow>
     vis \<subseteq> vis' \<and> length (fst st) \<le> length (fst st') \<and> X \<subseteq> {..<length (fst st)} \<and>
     (\<forall>i<length (fst st). i \<notin> X \<longrightarrow> fst st' ! i = fst st ! i) \<and>
     (\<forall>a\<in>vis. snd st' (PInt (int a)) = snd st (PInt (int a))) \<and>
     (\<forall>a\<in>vis' - vis. PInt (int a) \<in> dom (snd st') \<and>
        length (fst st) \<le> image_of (snd st') a \<and>
        node_ok h vis' (fst st') (image_of (snd st')) a) \<and>
     inj_on (image_of (snd st')) (vis' - vis)"

text \<open>
  Loading undoes serialising by \<open>f\<close>: on every state of \<^verbatim>\<open>load_dict\<close> whose
  \<^verbatim>\<open>mapping\<close> knows the visited nodes.
\<close>

definition simulates :: "heap \<Rightarrow> (pyval \<Rightarrow> addr set \<Rightarrow> (pyval \<times> addr set) option) \<Rightarrow> bool" where
  "simulates h f \<longleftrightarrow>
     (\<forall>v vis d vis' st. f v vis = Some (d, vis') \<longrightarrow> wf_val (length h) v \<longrightarrow> mapped vis (snd st) \<longrightarrow>
        (\<exists>v' st'. load_dict d st = Inr (v', st') \<and> sim h {} vis vis' st st' \<and>
                  refs v \<subseteq> vis' \<and> v' = reloc (image_of (snd st')) v))"

text \<open>The value and the heap of a result of \<^verbatim>\<open>load_dict\<close>.\<close>

definition loaded :: "error + (pyval \<times> lstate) \<Rightarrow> (pyval \<times> heap) option" where
  "loaded r = (case r of Inl e \<Rightarrow> None | Inr (v, g, m) \<Rightarrow> Some (v, g))"

text \<open>
  The statement \<^verbatim>\<open>local x = 1\<close>: an \<^verbatim>\<open>Assignment\<close> of type
  \<^verbatim>\<open>T_LOCAL_DEFINITION\<close> (0); its serialised form, and the heap that loading it into an
  empty heap gives.
\<close>

definition h_assign :: heap where
  "h_assign =
     [Obj Assignment [(''expressions'', PObj 1), (''destinations'', PObj 2), (''type'', PInt 0)],
      Obj ExpressionsList [(''contents'', PList [PObj 3])],
      Obj VariablesList [(''contents'', PList [PObj 4])],
      Obj Constant [(''type'', PInt 0), (''value'', PInt 1)],
      Obj Identifier [(''name'', PStr ''x''), (''type'', PInt 1), (''slot'', PInt 0),
                      (''id'', PInt (- 1)), (''_varinfo'', PNone)]]"

definition d_assign :: pyval where
  "d_assign =
     PDict
       [(''class'', PStr ''Assignment''), (''_id'', PInt 0),
        (''destinations'',
         PDict
          [(''class'', PStr ''VariablesList''), (''_id'', PInt 2),
           (''contents'',
            PList
             [PDict
               [(''class'', PStr ''Identifier''), (''_id'', PInt 4),
                (''name'', PStr ''x''), (''type'', PInt 1), (''slot'', PInt 0),
                (''id'', PInt (- 1))]])]),
        (''expressions'',
         PDict
          [(''class'', PStr ''ExpressionsList''), (''_id'', PInt 1),
           (''contents'',
            PList
             [PDict
               [(''class'', PStr ''Constant''), (''_id'', PInt 3),
                (''type'', PInt 0), (''value'', PInt 1)]])])]"

definition g_assign :: heap where
  "g_assign =
     [Obj Assignment
       [(''expressions'', PObj 5), (''destinations'', PObj 3), (''type'', PInt (- 1))],
      Obj ExpressionsList [(''contents'', PList [])],
      Obj VariablesList [(''contents'', PList [])],
      Obj VariablesList [(''contents'', PList [PObj 4])],
      Obj Identifier
       [(''name'', PStr ''x''), (''type'', PInt 1), (''slot'', PInt 0),
        (''id'', PInt (- 1)), (''_varinfo'', PNone)],
      Obj ExpressionsList [(''contents'', PList [PObj 6])],
      Obj Constant [(''type'', PInt 0), (''value'', PInt 1)]]"

text \<open>
  A block with two incoming edges whose warp jumps back to it; its serialised form, and
  the heap that loading it into an empty heap gives.
\<close>

definition h_block :: heap where
  "h_block =
     [Obj Block [(''index'', PInt 0), (''warp'', PObj 1), (''contents'', PList []),
                 (''first_address'', PInt 0), (''last_address'', PInt 3),
                 (''warpins_count'', PInt 2), (''loop'', PBool True)],
      Obj UnconditionalWarp [(''type'', PInt 0), (''target'', PObj 0), (''is_uclo'', PBool False)]]"

definition d_block :: pyval where
  "d_block =
     PDict
       [(''class'', PStr ''Block''), (''_id'', PInt 0),
        (''index'', PInt 0), (''first_address'', PInt 0), (''last_address'', PInt 3),
        (''contents'', PList []),
        (''warp'',
         PDict
          [(''class'', PStr ''UnconditionalWarp''), (''_id'', PInt 1),
           (''type'', PInt 0),
           (''target'', PDict [(''class'', PStr ''Ref''), (''_id'', PInt 0)]),
           (''is_uclo'', PBool False)]),
        (''loop'', PBool True)]"

definition g_block :: heap where
  "g_block =
     [Obj Block [(''index'', PInt 0), (''warp'', PObj 1), (''contents'', PList []),
                 (''first_address'', PInt 0), (''last_address'', PInt 3),
                 (''warpins_count'', PInt 0), (''loop'', PBool True)],
      Obj UnconditionalWarp [(''type'', PInt 0), (''target'', PObj 0), (''is_uclo'', PBool False)]]"

text \<open>
  The statement \<^verbatim>\<open>return 1.5, 1.5\<close>, both results being one \<^verbatim>\<open>Constant\<close> of type
  \<^verbatim>\<open>T_FLOAT\<close> (1).
\<close>

definition h_return :: heap where
  "h_return =
     [Obj Return [(''returns'', PObj 1)],
      Obj ExpressionsList [(''contents'', PList [PObj 2, PObj 2])],
      Obj Constant [(''type'', PInt 1), (''value'', PFloat 0x3FF8000000000000)]]"

section \<open>Operator tables\<close>

text \<open>
  C2. For each of the fifteen defined operator codes \<^verbatim>\<open>precedence()\<close> returns: 1 for
  logical-or, 2 for logical-and, 3 for each of the six comparisons, 4 for concat, 5 for
  add and subtract, 6 for multiply, divide and mod, 8 for pow. For a unary operator of
  any type it returns 7.
\<close>

theorem precedence_table:
  "precedence T_LOGICAL_OR = Inr 1 \<and>
   precedence T_LOGICAL_AND = Inr 2 \<and>
   precedence T_LESS_THEN = Inr 3 \<and>
   precedence T_GREATER_THEN = Inr 3 \<and>
   precedence T_LESS_OR_EQUAL = Inr 3 \<and>
   precedence T_GREATER_OR_EQUAL = Inr 3 \<and>
   precedence T_NOT_EQUAL = Inr 3 \<and>
   precedence T_EQUAL = Inr 3 \<and>
   precedence T_CONCAT = Inr 4 \<and>
   precedence T_ADD = Inr 5 \<and>
   precedence T_SUBTRACT = Inr 5 \<and>
   precedence T_MULTIPLY = Inr 6 \<and>
   precedence T_DIVISION = Inr 6 \<and>
   precedence T_MOD = Inr 6 \<and>
   precedence T_POW = Inr 8 \<and>
   UnaryOperator_precedence t = 7"
  by (simp add: precedence_def UnaryOperator_precedence_def T_defs PR_defs)

text \<open>
  C3. On the fifteen defined operator codes \<^verbatim>\<open>is_commutative()\<close> returns true for
  logical-and, logical-or, \<^verbatim>\<open>==\<close>, \<^verbatim>\<open>~=\<close>, \<^verbatim>\<open>+\<close> and \<^verbatim>\<open>*\<close>, and false for the
  nine others (\<^verbatim>\<open><\<close>, \<^verbatim>\<open>>\<close>, \<^verbatim>\<open><=\<close>, \<^verbatim>\<open>>=\<close>, concat, \<^verbatim>\<open>-\<close>, \<^verbatim>\<open>/\<close>, \<^verbatim>\<open>%\<close>,
  \<^verbatim>\<open>^\<close>).
\<close>

theorem is_commutative_table:
  "is_commutative T_LOGICAL_AND = Inr True \<and>
   is_commutative T_LOGICAL_OR = Inr True \<and>
   is_commutative T_EQUAL = Inr True \<and>
   is_commutative T_NOT_EQUAL = Inr True \<and>
   is_commutative T_ADD = Inr True \<and>
   is_commutative T_MULTIPLY = Inr True \<and>
   is_commutative T_LESS_THEN = Inr False \<and>
   is_commutative T_GREATER_THEN = Inr False \<and>
   is_commutative T_LESS_OR_EQUAL = Inr False \<and>
   is_commutative T_GREATER_OR_EQUAL = Inr False \<and>
   is_commutative T_CONCAT = Inr False \<and>
   is_commutative T_SUBTRACT = Inr False \<and>
   is_commutative T_DIVISION = Inr False \<and>
   is_commutative T_MOD = Inr False \<and>
   is_commutative T_POW = Inr False"
  by (simp add: is_commutative_def T_defs)

text \<open>
  C4. \<^verbatim>\<open>is_right_associative()\<close> returns true exactly when the operator is pow; in
  particular it returns false for concat.
\<close>

theorem is_right_associative_iff_pow:
  "is_right_associative t = (t = T_POW) \<and> is_right_associative T_CONCAT = False"
  by (simp add: is_right_associative_def T_defs)

section \<open>The pipeline driver\<close>

lemma run_all_logged_conv:
  "run_all (logged stage) cs (l, w) =
     (case run_all stage cs w of Inl e \<Rightarrow> Inl e | Inr w' \<Rightarrow> Inr (l @ cs, w'))"
  by (induction cs arbitrary: l w) (auto simp: logged_def split: sum.splits)

text \<open>
  C7. \<^verbatim>\<open>decompile(header, prototype)\<close> returns normally exactly when \<^verbatim>\<open>build\<close> returns
  an AST that passes the \<^verbatim>\<open>assert\<close> and each stage returns normally; the value is the
  AST that \<^verbatim>\<open>build\<close> returned, and the calls made are, in this order and each on that
  AST: build, validate (warped=True), pre_pass, validate (warped=True), mark_locals,
  eliminate_temporary (identify_slots=True), unwarp, mark_local_definitions, primary_pass,
  validate (warped=False), mark_locals (alt_mode=True), mark_local_definitions.
\<close>

theorem decompile_stage_order:
  "decompile (logged_build build) (logged stage) header prototype (l, w0) = Inr (ast, calls, w) \<longleftrightarrow>
     (\<exists>w1. build header prototype w0 = Inr (Some ast, w1) \<and>
        calls = l @ [Call_build header prototype,
                   Call_validate ast True,
                   Call_pre_pass ast,
                   Call_validate ast True,
                   Call_mark_locals ast None,
                   Call_eliminate_temporary ast True,
                   Call_unwarp ast False,
                   Call_mark_local_definitions ast,
                   Call_primary_pass ast,
                   Call_validate ast False,
                   Call_mark_locals ast (Some True),
                   Call_mark_local_definitions ast] \<and>
        run_all stage (tl (drop (length l) calls)) w1 = Inr w)"
  by (auto simp del: run_all.simps
      simp add: decompile_def logged_build_def run_all_logged_conv
      split: sum.splits option.splits prod.splits)

section \<open>The batch driver\<close>

lemma collect_conv:
  "collect E fs (failed, success, log) =
     (case find (uncaught E) fs of
        Some f \<Rightarrow> Inl (the (result E (path_in f) (path_out f)))
      | None \<Rightarrow>
          Inr (failed @ map (\<lambda>f. (path f, the (result E (path_in f) (path_out f))))
                         (filter (\<lambda>f. \<not> succeeded E f) fs),
               success @ map path (filter (succeeded E) fs),
               log @ map (\<lambda>f. Debug_success (path f)) (filter (succeeded E) fs)))"
  by (induction fs arbitrary: failed success log)
     (auto simp: succeeded_def uncaught_def split: option.splits)

lemma submit_names_total:
  assumes "list_all (\<lambda>name.
           (case hook of Some hk \<Rightarrow> hk name | None \<Rightarrow> with_suffix_lua E name) = Inr (rename name) \<and>
           submit E (joinpath E (joinpath E i reldir) name)
                    (joinpath E (joinpath E o' reldir) (rename name)) = None) names"
  shows "submit_names E i o' hook reldir names fs =
     Inr (fs @ map (\<lambda>name. \<lparr>path = joinpath E reldir name,
                      path_in = joinpath E (joinpath E i reldir) name,
                      path_out = joinpath E (joinpath E o' reldir) (rename name)\<rparr>) names)"
  using assms by (induction names arbitrary: fs) simp_all

lemma submit_walk_total:
  assumes "list_all (\<lambda>(reldir, names).
        mkdir E (joinpath E o' reldir) = None \<and>
        list_all (\<lambda>name.
           (case hook of Some hk \<Rightarrow> hk name | None \<Rightarrow> with_suffix_lua E name) = Inr (rename name) \<and>
           submit E (joinpath E (joinpath E i reldir) name)
                    (joinpath E (joinpath E o' reldir) (rename name)) = None) names) dirs"
  shows "submit_walk E i o' hook dirs fs =
     Inr (fs @ concat (map (\<lambda>(reldir, names).
        map (\<lambda>name. \<lparr>path = joinpath E reldir name,
                      path_in = joinpath E (joinpath E i reldir) name,
                      path_out = joinpath E (joinpath E o' reldir) (rename name)\<rparr>) names)
        dirs))"
  using assms
  by (induction dirs arbitrary: fs)
     (auto simp: submit_names_total [where hook = hook and rename = rename])

lemma process_folder_total:
  assumes "all_submitted E in_dir out_dir hook rename"
  shows "process_folder E in_dir out_dir hook =
           (case find (uncaught E) (submitted E in_dir out_dir rename) of
              Some f \<Rightarrow> Inl (the (result E (path_in f) (path_out f)))
            | None \<Rightarrow> Inr (report E in_dir out_dir (submitted E in_dir out_dir rename)))"
proof -
  from assms have p: "pool E = None" by (simp add: all_submitted_def)
  from assms have "submit_walk E in_dir out_dir hook (walk E) [] =
      Inr (submitted E in_dir out_dir rename)"
    by (simp add: all_submitted_def submitted_def
          submit_walk_total [where hook = hook and rename = rename])
  then show ?thesis
    by (simp add: process_folder_def p collect_conv report_def comp_def case_prod_beta
          split: option.splits)
qed

text \<open>
  C8, as the code has it. Let nothing raise before the results are collected (the pool
  is created, the output directories are made, the output names are computed by the rename
  hook or by \<^verbatim>\<open>with_suffix\<close>, the files are submitted). Then \<^verbatim>\<open>process_folder\<close> looks at
  the outcomes of the submitted files in order. An outcome that is an \<^verbatim>\<open>Exception\<close> is
  caught, whatever the outcomes of the files before it; if every file returned or raised
  an \<^verbatim>\<open>Exception\<close>, \<^verbatim>\<open>process_folder\<close> returns the relative paths of the files that
  succeeded, in order, and logs one \<^verbatim>\<open>FAILED\<close> record for each file that raised. The
  first outcome that is no \<^verbatim>\<open>Exception\<close> (a \<^verbatim>\<open>SystemExit\<close>) leaves
  \<^verbatim>\<open>process_folder\<close>. Run as a program with both
  arguments, the module drops the list returned and ends: the exit status is 0 whenever
  \<^verbatim>\<open>process_folder\<close> returns, whether or not a file failed, and is the status of the
  exception that left it otherwise.
\<close>

theorem process_folder_batch:
  assumes "all_submitted E in_dir out_dir hook rename"
  shows "process_folder E in_dir out_dir hook =
           (case find (uncaught E) (submitted E in_dir out_dir rename) of
              Some f \<Rightarrow> Inl (the (result E (path_in f) (path_out f)))
            | None \<Rightarrow> Inr (report E in_dir out_dir (submitted E in_dir out_dir rename))) \<and>
         fst (report E in_dir out_dir fs) = map path (filter (succeeded E) fs) \<and>
         (hook = None \<longrightarrow>
            main E (prog # in_dir # out_dir # rest) =
              (case find (uncaught E) (submitted E in_dir out_dir rename) of
                 Some f \<Rightarrow> exit_status (the (result E (path_in f) (path_out f)))
               | None \<Rightarrow> 0))"
  using assms
  by (auto simp: process_folder_total [where rename = rename] main_def report_def
           split: option.splits)

theorem process_folder_batch_witness:
  "all_submitted E1 ''in'' ''out'' None (\<lambda>n. takeWhile (\<lambda>c. c \<noteq> CHR ''.'') n @ ''.lua'') \<and>
   process_folder E1 ''in'' ''out'' None =
     Inr ([''good.luac'', ''fine.luac''],
          [Debug_success ''good.luac'', Debug_success ''fine.luac'',
           Info_failed ''bad.luac'' ValueError,
           Warning_summary ''in'' ''out'' 2 1]) \<and>
   main E1 [''tools.py'', ''in'', ''out''] = 0 \<and>
   all_submitted E2 ''in'' ''out'' None (\<lambda>n. takeWhile (\<lambda>c. c \<noteq> CHR ''.'') n @ ''.lua'') \<and>
   process_folder E2 ''in'' ''out'' None = Inl (SystemExit 3) \<and>
   main E2 [''tools.py'', ''in'', ''out''] = 3"
proof -
  let ?rename = "\<lambda>n. takeWhile (\<lambda>c. c \<noteq> CHR ''.'') n @ ''.lua''"
  have ok1: "all_submitted E1 ''in'' ''out'' None ?rename"
    by (simp add: all_submitted_def E1_def)
  have ok2: "all_submitted E2 ''in'' ''out'' None ?rename"
    by (simp add: all_submitted_def E1_def E2_def)
  have f1: "find (uncaught E1) (submitted E1 ''in'' ''out'' ?rename) = None"
    by (simp add: submitted_def uncaught_def E1_def)
  have r1: "report E1 ''in'' ''out'' (submitted E1 ''in'' ''out'' ?rename) =
      ([''good.luac'', ''fine.luac''],
          [Debug_success ''good.luac'', Debug_success ''fine.luac'',
           Info_failed ''bad.luac'' ValueError,
           Warning_summary ''in'' ''out'' 2 1])"
    by (simp add: submitted_def report_def succeeded_def E1_def)
  have f2: "find (uncaught E2) (submitted E2 ''in'' ''out'' ?rename) =
      Some \<lparr>path = ''bad.luac'', path_in = ''in/bad.luac'', path_out = ''out/bad.lua''\<rparr>"
    by (simp add: submitted_def uncaught_def E1_def E2_def)
  have e2: "result E2 ''in/bad.luac'' ''out/bad.lua'' = Some (SystemExit 3)"
    by (simp add: E1_def E2_def)
  note T1 = process_folder_batch [OF ok1, of "[]" "''tools.py''" "[]"]
  note T2 = process_folder_batch [OF ok2, of "[]" "''tools.py''" "[]"]
  from T1 f1 r1 have "process_folder E1 ''in'' ''out'' None =
     Inr ([''good.luac'', ''fine.luac''],
          [Debug_success ''good.luac'', Debug_success ''fine.luac'',
           Info_failed ''bad.luac'' ValueError,
           Warning_summary ''in'' ''out'' 2 1])"
    and "main E1 [''tools.py'', ''in'', ''out''] = 0"
    by simp_all
  moreover from T2 f2 e2 have "process_folder E2 ''in'' ''out'' None = Inl (SystemExit 3)"
    and "main E2 [''tools.py'', ''in'', ''out''] = 3"
    by simp_all
  ultimately show ?thesis using ok1 ok2 by simp
qed

text \<open>
  The property as the spec states it fails on the batch \<open>E1\<close>: \<^verbatim>\<open>bad.luac\<close> fails (and
  the file after it is still processed), yet the exit status is 0. It fails on \<open>E2\<close> as
  well: the \<^verbatim>\<open>SystemExit\<close> of \<^verbatim>\<open>bad.luac\<close> is not caught, \<^verbatim>\<open>process_folder\<close> returns
  no list, and the program ends with the status of that exception.
\<close>

theorem exit_status_counterexample:
  "process_folder E1 ''in'' ''out'' None =
     Inr ([''good.luac'', ''fine.luac''],
          [Debug_success ''good.luac'', Debug_success ''fine.luac'',
           Info_failed ''bad.luac'' ValueError,
           Warning_summary ''in'' ''out'' 2 1]) \<and>
   main E1 [''tools.py'', ''in'', ''out''] = 0 \<and>
   process_folder E2 ''in'' ''out'' None = Inl (SystemExit 3) \<and>
   main E2 [''tools.py'', ''in'', ''out''] = 3"
  by (simp add: process_folder_def main_def E1_def E2_def)

section \<open>The visitor traversal\<close>

subsection \<open>More fuel never changes a result\<close>

lemma visit_mono:
  assumes "\<And>a st r. acc a st = Some r \<Longrightarrow> acc' a st = Some r"
  shows "visit acc x st = Some r \<Longrightarrow> visit acc' x st = Some r"
  using assms by (cases x) auto

lemma visit_list_mono:
  assumes "\<And>a st r. acc a st = Some r \<Longrightarrow> acc' a st = Some r"
  shows "visit_list acc xs st = Some r \<Longrightarrow> visit_list acc' xs st = Some r"
proof (induction xs arbitrary: st)
  case Nil
  then show ?case by simp
next
  case (Cons x xs)
  from Cons.prems obtain r1 where r1: "visit acc x st = Some r1"
    by (auto split: option.splits)
  then have r1': "visit acc' x st = Some r1"
    using assms by (rule visit_mono [rotated])
  show ?case
  proof (cases r1)
    case (Inl e)
    with Cons.prems r1 r1' show ?thesis by auto
  next
    case (Inr st1)
    with Cons.prems r1 have "visit_list acc xs st1 = Some r" by simp
    then have "visit_list acc' xs st1 = Some r" by (rule Cons.IH)
    with r1' Inr show ?thesis by simp
  qed
qed

lemma run_step_mono:
  assumes "\<And>a st r. acc a st = Some r \<Longrightarrow> acc' a st = Some r"
  shows "run_step acc ob v self s st = Some r \<Longrightarrow> run_step acc' ob v self s st = Some r"
  using visit_mono [of acc acc', OF assms] visit_list_mono [of acc acc', OF assms]
  by (cases s) (auto split: option.splits pyval.splits)

lemma run_steps_mono:
  assumes "\<And>a st r. acc a st = Some r \<Longrightarrow> acc' a st = Some r"
  shows "run_steps acc ob v self ss st = Some r \<Longrightarrow> run_steps acc' ob v self ss st = Some r"
proof (induction ss arbitrary: st)
  case Nil
  then show ?case by simp
next
  case (Cons s ss)
  from Cons.prems obtain r1 where r1: "run_step acc ob v self s st = Some r1"
    by (auto split: option.splits)
  then have r1': "run_step acc' ob v self s st = Some r1"
    using assms by (rule run_step_mono [rotated])
  show ?case
  proof (cases r1)
    case (Inl e)
    with Cons.prems r1 r1' show ?thesis by auto
  next
    case (Inr st1)
    with Cons.prems r1 have "run_steps acc ob v self ss st1 = Some r" by simp
    then have "run_steps acc' ob v self ss st1 = Some r" by (rule Cons.IH)
    with r1' Inr show ?thesis by simp
  qed
qed

lemma accept_Suc_mono:
  "accept n h v a st = Some r \<Longrightarrow> accept (Suc n) h v a st = Some r"
proof (induction n arbitrary: a st r)
  case 0
  then show ?case by simp
next
  case (Suc n)
  have step: "\<And>ob self ss st r. run_steps (accept n h v) ob v self ss st = Some r \<Longrightarrow>
      run_steps (accept (Suc n) h v) ob v self ss st = Some r"
    by (rule run_steps_mono [rotated], assumption, rule Suc.IH)
  from Suc.prems show ?case
    by (subst accept.simps(2)) (auto simp del: accept_body.simps split: if_splits dest: step)
qed

lemma accept_mono:
  "accept n h v a st = Some r \<Longrightarrow> n \<le> m \<Longrightarrow> accept m h v a st = Some r"
  by (induction m) (auto simp: le_Suc_eq dest: accept_Suc_mono simp del: accept.simps)

subsection \<open>Hook calls are only appended\<close>

lemma extends_refl [simp]: "extends st st"
  by (simp add: extends_def)

lemma extends_trans: "extends st st1 \<Longrightarrow> extends st1 st2 \<Longrightarrow> extends st st2"
  by (auto simp: extends_def)

lemma extends_call_hook [simp]: "extends st (call_hook v name a st)"
  by (simp add: extends_def call_hook_def)

lemma visit_list_extends:
  assumes "\<And>a st st'. acc a st = Some (Inr st') \<Longrightarrow> extends st st'"
  shows "visit_list acc xs st = Some (Inr st') \<Longrightarrow> extends st st'"
proof (induction xs arbitrary: st)
  case Nil
  then show ?case by simp
next
  case (Cons x xs)
  then obtain st1 where 1: "visit acc x st = Some (Inr st1)" and 2: "visit_list acc xs st1 = Some (Inr st')"
    by (auto split: option.splits sum.splits)
  from 1 have "extends st st1" using assms by (cases x) auto
  with Cons.IH [OF 2] show ?case by (blast intro: extends_trans)
qed

lemma run_step_extends:
  assumes "\<And>a st st'. acc a st = Some (Inr st') \<Longrightarrow> extends st st'"
  shows "run_step acc ob v self s st = Some (Inr st') \<Longrightarrow> extends st st'"
proof (cases s)
  case (Visit f)
  assume "run_step acc ob v self s st = Some (Inr st')"
  with Visit obtain x where "visit acc x st = Some (Inr st')"
    by (auto split: option.splits)
  then show ?thesis using assms by (cases x) auto
next
  case (VisitList f)
  assume "run_step acc ob v self s st = Some (Inr st')"
  with VisitList obtain xs where "visit_list acc xs st = Some (Inr st')"
    by (auto split: option.splits pyval.splits)
  then show ?thesis using assms by (rule visit_list_extends [rotated])
qed auto

lemma run_steps_extends:
  assumes "\<And>a st st'. acc a st = Some (Inr st') \<Longrightarrow> extends st st'"
  shows "run_steps acc ob v self ss st = Some (Inr st') \<Longrightarrow> extends st st'"
proof (induction ss arbitrary: st)
  case Nil
  then show ?case by simp
next
  case (Cons s ss)
  then obtain st1 where 1: "run_step acc ob v self s st = Some (Inr st1)"
    and 2: "run_steps acc ob v self ss st1 = Some (Inr st')"
    by (auto split: option.splits sum.splits)
  from 1 have "extends st st1" using assms by (rule run_step_extends [rotated])
  with Cons.IH [OF 2] show ?case by (blast intro: extends_trans)
qed

lemma events_enter_table [simp]: "events (enter_table v st) = events st"
  by (simp add: enter_table_def split: option.splits)

lemma extends_enter_table [simp]: "extends (enter_table v st) st' = extends st st'"
  by (simp add: extends_def)

lemma extends_enter_table_right [simp]: "extends st (enter_table v st)"
  by (simp add: extends_def)

lemma extends_anti_loop_update [simp]:
  "extends (st\<lparr>anti_loop := X\<rparr>) st' = extends st st'"
  by (simp add: extends_def)

lemma accept_extends:
  "accept n h v a st = Some (Inr st') \<Longrightarrow> extends st st'"
proof (induction n arbitrary: a st st')
  case 0
  then show ?case by simp
next
  case (Suc n)
  have step: "\<And>ob self ss st st'. run_steps (accept n h v) ob v self ss st = Some (Inr st') \<Longrightarrow>
      extends st st'"
    by (rule run_steps_extends [rotated], assumption, rule Suc.IH)
  from Suc.prems show ?case
    by (auto simp del: accept_body.simps split: if_splits dest!: step)
qed

subsection \<open>Order of the children\<close>

text \<open>
  C5. The traversal of a \<^verbatim>\<open>FunctionCall\<close> node ends normally exactly when, after the
  enter hook, the traversal of its \<^verbatim>\<open>arguments\<close> ends normally and then, from the state
  that this leaves, the traversal of its \<^verbatim>\<open>function\<close> does; the leave hook comes last. So
  every hook call for the arguments precedes every hook call for the function expression.
  Likewise a \<^verbatim>\<open>GetItem\<close> node: first its \<^verbatim>\<open>key\<close>, then its \<^verbatim>\<open>table\<close>.
\<close>

theorem call_and_item_visit_order:
  assumes self: "self < length h"
  shows "(obj_class (h ! self) = FunctionCall \<and>
          map_of (attrs (h ! self)) ''arguments'' = Some (PObj args) \<and>
          map_of (attrs (h ! self)) ''function'' = Some (PObj fn) \<longrightarrow>
          (accept (Suc n) h v self st = Some (Inr st') \<longleftrightarrow>
            (\<exists>st1 st2 t1 t2.
               accept n h v args (call_hook v ''visit_function_call'' self st) = Some (Inr st1) \<and>
               accept n h v fn st1 = Some (Inr st2) \<and>
               st' = call_hook v ''leave_function_call'' self st2 \<and>
               events st1 = events st @ [(v, ''visit_function_call'', self)] @ t1 \<and>
               events st2 = events st1 @ t2 \<and>
               events st' = events st @ [(v, ''visit_function_call'', self)] @ t1 @ t2 @
                              [(v, ''leave_function_call'', self)]))) \<and>
         (obj_class (h ! self) = GetItem \<and>
          map_of (attrs (h ! self)) ''key'' = Some (PObj key) \<and>
          map_of (attrs (h ! self)) ''table'' = Some (PObj table) \<longrightarrow>
          (accept (Suc n) h v self st = Some (Inr st') \<longleftrightarrow>
            (\<exists>st1 st2 t1 t2.
               accept n h v key (call_hook v ''visit_table_element'' self st) = Some (Inr st1) \<and>
               accept n h v table st1 = Some (Inr st2) \<and>
               st' = call_hook v ''leave_table_element'' self st2 \<and>
               events st1 = events st @ [(v, ''visit_table_element'', self)] @ t1 \<and>
               events st2 = events st1 @ t2 \<and>
               events st' = events st @ [(v, ''visit_table_element'', self)] @ t1 @ t2 @
                              [(v, ''leave_table_element'', self)])))"
proof -
  have seq: "\<And>x y enter leave.
    (case accept n h v x (call_hook v enter self st) of
       None \<Rightarrow> None
     | Some (Inl e) \<Rightarrow> Some (Inl e)
     | Some (Inr st1) \<Rightarrow>
         (case accept n h v y st1 of
            None \<Rightarrow> None
          | Some (Inl e) \<Rightarrow> Some (Inl e)
          | Some (Inr st2) \<Rightarrow> Some (Inr (call_hook v leave self st2)))) = Some (Inr st') \<longleftrightarrow>
    (\<exists>st1 st2 t1 t2.
       accept n h v x (call_hook v enter self st) = Some (Inr st1) \<and>
       accept n h v y st1 = Some (Inr st2) \<and>
       st' = call_hook v leave self st2 \<and>
       events st1 = events st @ [(v, enter, self)] @ t1 \<and>
       events st2 = events st1 @ t2 \<and>
       events st' = events st @ [(v, enter, self)] @ t1 @ t2 @ [(v, leave, self)])"
    (is "\<And>x y enter leave. ?L x y enter leave \<longleftrightarrow> ?R x y enter leave")
  proof -
    fix x y enter leave
    show "?L x y enter leave \<longleftrightarrow> ?R x y enter leave"
    proof
      assume "?L x y enter leave"
      then obtain st1 st2 where 1: "accept n h v x (call_hook v enter self st) = Some (Inr st1)"
        and 2: "accept n h v y st1 = Some (Inr st2)" and 3: "st' = call_hook v leave self st2"
        by (auto split: option.splits sum.splits)
      from accept_extends [OF 1] obtain t1 where t1: "events st1 = events st @ [(v, enter, self)] @ t1"
        by (auto simp: extends_def call_hook_def)
      from accept_extends [OF 2] obtain t2 where t2: "events st2 = events st1 @ t2"
        by (auto simp: extends_def)
      from 1 2 3 t1 t2 show "?R x y enter leave"
        by (auto simp: call_hook_def)
    next
      assume "?R x y enter leave"
      then show "?L x y enter leave" by auto
    qed
  qed
  have unfold: "accept (Suc n) h v self st =
      (case accept n h v x (call_hook v enter self st) of
         None \<Rightarrow> None
       | Some (Inl e) \<Rightarrow> Some (Inl e)
       | Some (Inr st1) \<Rightarrow>
           (case accept n h v y st1 of
              None \<Rightarrow> None
            | Some (Inl e) \<Rightarrow> Some (Inl e)
            | Some (Inr st2) \<Rightarrow> Some (Inr (call_hook v leave self st2))))"
    if "obj_class (h ! self) \<noteq> TableConstructor"
      and "accept_body (obj_class (h ! self)) = [VisitNode enter, Visit f1, Visit f2, LeaveNode leave]"
      and "map_of (attrs (h ! self)) f1 = Some (PObj x)"
      and "map_of (attrs (h ! self)) f2 = Some (PObj y)"
    for enter leave f1 f2 x y
    using that self by (simp split: option.splits sum.splits)
  show ?thesis
  proof (intro conjI impI; elim conjE)
    assume "obj_class (h ! self) = FunctionCall"
      and "map_of (attrs (h ! self)) ''arguments'' = Some (PObj args)"
      and "map_of (attrs (h ! self)) ''function'' = Some (PObj fn)"
    then have "accept (Suc n) h v self st =
      (case accept n h v args (call_hook v ''visit_function_call'' self st) of
         None \<Rightarrow> None
       | Some (Inl e) \<Rightarrow> Some (Inl e)
       | Some (Inr st1) \<Rightarrow>
           (case accept n h v fn st1 of
              None \<Rightarrow> None
            | Some (Inl e) \<Rightarrow> Some (Inl e)
            | Some (Inr st2) \<Rightarrow> Some (Inr (call_hook v ''leave_function_call'' self st2))))"
      by (intro unfold) simp_all
    then show "accept (Suc n) h v self st = Some (Inr st') \<longleftrightarrow>
            (\<exists>st1 st2 t1 t2.
               accept n h v args (call_hook v ''visit_function_call'' self st) = Some (Inr st1) \<and>
               accept n h v fn st1 = Some (Inr st2) \<and>
               st' = call_hook v ''leave_function_call'' self st2 \<and>
               events st1 = events st @ [(v, ''visit_function_call'', self)] @ t1 \<and>
               events st2 = events st1 @ t2 \<and>
               events st' = events st @ [(v, ''visit_function_call'', self)] @ t1 @ t2 @
                              [(v, ''leave_function_call'', self)])"
      by (simp only: seq)
  next
    assume "obj_class (h ! self) = GetItem"
      and "map_of (attrs (h ! self)) ''key'' = Some (PObj key)"
      and "map_of (attrs (h ! self)) ''table'' = Some (PObj table)"
    then have "accept (Suc n) h v self st =
      (case accept n h v key (call_hook v ''visit_table_element'' self st) of
         None \<Rightarrow> None
       | Some (Inl e) \<Rightarrow> Some (Inl e)
       | Some (Inr st1) \<Rightarrow>
           (case accept n h v table st1 of
              None \<Rightarrow> None
            | Some (Inl e) \<Rightarrow> Some (Inl e)
            | Some (Inr st2) \<Rightarrow> Some (Inr (call_hook v ''leave_table_element'' self st2))))"
      by (intro unfold) simp_all
    then show "accept (Suc n) h v self st = Some (Inr st') \<longleftrightarrow>
            (\<exists>st1 st2 t1 t2.
               accept n h v key (call_hook v ''visit_table_element'' self st) = Some (Inr st1) \<and>
               accept n h v table st1 = Some (Inr st2) \<and>
               st' = call_hook v ''leave_table_element'' self st2 \<and>
               events st1 = events st @ [(v, ''visit_table_element'', self)] @ t1 \<and>
               events st2 = events st1 @ t2 \<and>
               events st' = events st @ [(v, ''visit_table_element'', self)] @ t1 @ t2 @
                              [(v, ''leave_table_element'', self)])"
      by (simp only: seq)
  qed
qed

theorem call_and_item_visit_order_witness:
  "obj_class (h_call ! 0) = FunctionCall \<and>
   map_of (attrs (h_call ! 0)) ''arguments'' = Some (PObj 2) \<and>
   map_of (attrs (h_call ! 0)) ''function'' = Some (PObj 1) \<and>
   accept (Suc 2) h_call 7 0 st0 = Some (Inr st_call) \<and>
   (\<exists>st1 st2 t1 t2.
      accept 2 h_call 7 2 (call_hook 7 ''visit_function_call'' 0 st0) = Some (Inr st1) \<and>
      accept 2 h_call 7 1 st1 = Some (Inr st2) \<and>
      st_call = call_hook 7 ''leave_function_call'' 0 st2 \<and>
      events st1 = events st0 @ [(7, ''visit_function_call'', 0)] @ t1 \<and>
      events st2 = events st1 @ t2 \<and>
      events st_call = events st0 @ [(7, ''visit_function_call'', 0)] @ t1 @ t2 @
                         [(7, ''leave_function_call'', 0)]) \<and>
   obj_class (h_call ! 4) = GetItem \<and>
   map_of (attrs (h_call ! 4)) ''key'' = Some (PObj 3) \<and>
   map_of (attrs (h_call ! 4)) ''table'' = Some (PObj 1) \<and>
   accept (Suc 2) h_call 7 4 st0 = Some (Inr st_item) \<and>
   (\<exists>st1 st2 t1 t2.
      accept 2 h_call 7 3 (call_hook 7 ''visit_table_element'' 4 st0) = Some (Inr st1) \<and>
      accept 2 h_call 7 1 st1 = Some (Inr st2) \<and>
      st_item = call_hook 7 ''leave_table_element'' 4 st2 \<and>
      events st1 = events st0 @ [(7, ''visit_table_element'', 4)] @ t1 \<and>
      events st2 = events st1 @ t2 \<and>
      events st_item = events st0 @ [(7, ''visit_table_element'', 4)] @ t1 @ t2 @
                         [(7, ''leave_table_element'', 4)])"
proof -
  have len: "0 < length h_call" "4 < length h_call"
    by (simp_all add: h_call_def)
  have fc: "obj_class (h_call ! 0) = FunctionCall \<and>
      map_of (attrs (h_call ! 0)) ''arguments'' = Some (PObj 2) \<and>
      map_of (attrs (h_call ! 0)) ''function'' = Some (PObj 1)"
    by (simp add: h_call_def)
  have gi: "obj_class (h_call ! 4) = GetItem \<and>
      map_of (attrs (h_call ! 4)) ''key'' = Some (PObj 3) \<and>
      map_of (attrs (h_call ! 4)) ''table'' = Some (PObj 1)"
    by (simp add: h_call_def)
  have run_fc: "accept (Suc 2) h_call 7 0 st0 = Some (Inr st_call)"
    by (simp add: h_call_def st0_def st_call_def eval_nat_numeral call_hook_def)
  have run_gi: "accept (Suc 2) h_call 7 4 st0 = Some (Inr st_item)"
    by (simp add: h_call_def st0_def st_item_def eval_nat_numeral call_hook_def)
  note a = call_and_item_visit_order [OF len(1), where n = 2 and v = 7 and st = st0
      and st' = st_call and args = 2 and fn = 1, THEN conjunct1, rule_format, OF fc]
  note b = call_and_item_visit_order [OF len(2), where n = 2 and v = 7 and st = st0
      and st' = st_item and key = 3 and table = 1, THEN conjunct2, rule_format, OF gi]
  from fc gi run_fc run_gi a [THEN iffD1, OF run_fc] b [THEN iffD1, OF run_gi]
  show ?thesis by (intro conjI) (elim conjE, assumption)+
qed

subsection \<open>Warps are edges\<close>

lemma map_of_filter_key:
  "k \<notin> S \<Longrightarrow> map_of (filter (\<lambda>kv. fst kv \<notin> S) xs) k = map_of xs k"
  by (induction xs) auto

lemma length_cut_targets [simp]: "length (cut_targets h) = length h"
  by (simp add: cut_targets_def)

lemma class_cut_targets [simp]:
  "a < length h \<Longrightarrow> obj_class (cut_targets h ! a) = obj_class (h ! a)"
  by (simp add: cut_targets_def)

lemma attr_cut_targets:
  "a < length h \<Longrightarrow> f \<notin> set (warp_targets (obj_class (h ! a))) \<Longrightarrow>
   map_of (attrs (cut_targets h ! a)) f = map_of (attrs (h ! a)) f"
  by (simp add: cut_targets_def map_of_filter_key)

lemma body_reads_no_target:
  "Visit f \<in> set (accept_body c) \<or> VisitList f \<in> set (accept_body c) \<Longrightarrow> f \<notin> set (warp_targets c)"
  by (cases c) auto

lemma run_steps_same_fields:
  assumes "\<And>f. Visit f \<in> set ss \<or> VisitList f \<in> set ss \<Longrightarrow>
             map_of (attrs ob') f = map_of (attrs ob) f"
    and "acc' = acc"
  shows "run_steps acc' ob' v self ss st = run_steps acc ob v self ss st"
  using assms(1)
proof (induction ss arbitrary: st)
  case Nil
  then show ?case by simp
next
  case (Cons s ss)
  have "run_step acc' ob' v self s st = run_step acc ob v self s st"
    using Cons.prems [of "case s of Visit f \<Rightarrow> f | VisitList f \<Rightarrow> f | _ \<Rightarrow> []"] assms(2)
    by (cases s) auto
  moreover have "run_steps acc' ob' v self ss st1 = run_steps acc ob v self ss st1" for st1
    using Cons.prems by (intro Cons.IH) auto
  ultimately show ?case by (simp split: option.splits sum.splits)
qed

lemma accept_cut_targets:
  "accept n (cut_targets h) v self st = accept n h v self st"
proof (induction n arbitrary: self st)
  case 0
  show ?case by simp
next
  case (Suc n)
  have acc: "accept n (cut_targets h) v = accept n h v"
    by (intro ext) (rule Suc.IH)
  show ?case
  proof (cases "self < length h")
    case False
    then show ?thesis by simp
  next
    case True
    have steps: "run_steps (accept n (cut_targets h) v) (cut_targets h ! self) v self
            (accept_body (obj_class (h ! self))) st1 =
          run_steps (accept n h v) (h ! self) v self (accept_body (obj_class (h ! self))) st1" for st1
      using True acc
      by (intro run_steps_same_fields) (auto dest!: body_reads_no_target simp: attr_cut_targets)
    show ?thesis
    proof (cases "obj_class (h ! self) = TableConstructor")
      case tc: True
      with True steps [of "(enter_table v st)\<lparr>anti_loop := insert self (anti_loop (enter_table v st))\<rparr>"]
      show ?thesis by (simp del: accept_body.simps)
    next
      case False
      with True steps [of st] show ?thesis by (simp del: accept_body.simps)
    qed
  qed
qed

text \<open>
  C6. A traversal never reads the target fields of a warp (\<^verbatim>\<open>target\<close>,
  \<^verbatim>\<open>true_target\<close>, \<^verbatim>\<open>false_target\<close>, \<^verbatim>\<open>body\<close>, \<^verbatim>\<open>way_out\<close>): it gives the same
  result on the heap in which every warp has lost them, so no block is entered through a
  warp edge. Visiting an \<^verbatim>\<open>UnconditionalWarp\<close> calls its two hooks and nothing else;
  visiting a \<^verbatim>\<open>ConditionalWarp\<close> visits the condition between its hooks; visiting an
  \<^verbatim>\<open>IteratorWarp\<close> or a \<^verbatim>\<open>NumericLoopWarp\<close> visits the variables (the index) and then
  the controls.
\<close>

theorem warp_targets_not_visited:
  "accept n (cut_targets h) v x st = accept n h v x st \<and>
   (self < length h \<and> obj_class (h ! self) = UnconditionalWarp \<longrightarrow>
      accept (Suc n) h v self st =
        Some (Inr (call_hook v ''leave_unconditional_warp'' self
                    (call_hook v ''visit_unconditional_warp'' self st)))) \<and>
   (self < length h \<and> obj_class (h ! self) = ConditionalWarp \<and>
    map_of (attrs (h ! self)) ''condition'' = Some (PObj c) \<longrightarrow>
      accept (Suc n) h v self st =
        (case accept n h v c (call_hook v ''visit_conditional_warp'' self st) of
           None \<Rightarrow> None
         | Some (Inl e) \<Rightarrow> Some (Inl e)
         | Some (Inr st1) \<Rightarrow> Some (Inr (call_hook v ''leave_conditional_warp'' self st1)))) \<and>
   (self < length h \<and> obj_class (h ! self) = IteratorWarp \<and>
    map_of (attrs (h ! self)) ''variables'' = Some (PObj vs) \<and>
    map_of (attrs (h ! self)) ''controls'' = Some (PObj cs) \<longrightarrow>
      accept (Suc n) h v self st =
        (case accept n h v vs (call_hook v ''visit_iterator_warp'' self st) of
           None \<Rightarrow> None
         | Some (Inl e) \<Rightarrow> Some (Inl e)
         | Some (Inr st1) \<Rightarrow>
             (case accept n h v cs st1 of
                None \<Rightarrow> None
              | Some (Inl e) \<Rightarrow> Some (Inl e)
              | Some (Inr st2) \<Rightarrow> Some (Inr (call_hook v ''leave_iterator_warp'' self st2))))) \<and>
   (self < length h \<and> obj_class (h ! self) = NumericLoopWarp \<and>
    map_of (attrs (h ! self)) ''index'' = Some (PObj vs) \<and>
    map_of (attrs (h ! self)) ''controls'' = Some (PObj cs) \<longrightarrow>
      accept (Suc n) h v self st =
        (case accept n h v vs (call_hook v ''visit_numeric_loop_warp'' self st) of
           None \<Rightarrow> None
         | Some (Inl e) \<Rightarrow> Some (Inl e)
         | Some (Inr st1) \<Rightarrow>
             (case accept n h v cs st1 of
                None \<Rightarrow> None
              | Some (Inl e) \<Rightarrow> Some (Inl e)
              | Some (Inr st2) \<Rightarrow> Some (Inr (call_hook v ''leave_numeric_loop_warp'' self st2)))))"
  by (simp add: accept_cut_targets split: option.splits sum.splits)

theorem warp_targets_not_visited_witness:
  "obj_class (h_warp ! 4) = UnconditionalWarp \<and>
   obj_class (h_warp ! 1) = ConditionalWarp \<and>
   obj_class (h_warp ! 5) = IteratorWarp \<and>
   obj_class (h_warp ! 8) = NumericLoopWarp \<and>
   accept (Suc 3) (cut_targets h_warp) 7 0 st0 = accept (Suc 3) h_warp 7 0 st0 \<and>
   accept (Suc 3) h_warp 7 4 st0 =
     Some (Inr \<lparr>events = [(7, ''visit_unconditional_warp'', 4), (7, ''leave_unconditional_warp'', 4)],
                anti_loop = {}, cur_visitor = None\<rparr>) \<and>
   accept (Suc 3) h_warp 7 1 st0 =
     Some (Inr \<lparr>events = [(7, ''visit_conditional_warp'', 1), (7, ''visit_identifier'', 2),
                          (7, ''leave_identifier'', 2), (7, ''leave_conditional_warp'', 1)],
                anti_loop = {}, cur_visitor = None\<rparr>) \<and>
   accept (Suc 3) h_warp 7 5 st0 =
     Some (Inr \<lparr>events = [(7, ''visit_iterator_warp'', 5), (7, ''visit_variables_list'', 6),
                          (7, ''visit_identifier'', 2), (7, ''leave_identifier'', 2),
                          (7, ''leave_variables_list'', 6), (7, ''visit_expressions_list'', 7),
                          (7, ''leave_expressions_list'', 7), (7, ''leave_iterator_warp'', 5)],
                anti_loop = {}, cur_visitor = None\<rparr>) \<and>
   accept (Suc 3) h_warp 7 8 st0 =
     Some (Inr \<lparr>events = [(7, ''visit_numeric_loop_warp'', 8), (7, ''visit_identifier'', 2),
                          (7, ''leave_identifier'', 2), (7, ''visit_expressions_list'', 7),
                          (7, ''leave_expressions_list'', 7), (7, ''leave_numeric_loop_warp'', 8)],
                anti_loop = {}, cur_visitor = None\<rparr>)"
proof -
  have sub: "accept 3 h_warp 7 2 st = Some (Inr (call_hook 7 ''leave_identifier'' 2
               (call_hook 7 ''visit_identifier'' 2 st)))"
    "accept 3 h_warp 7 7 st = Some (Inr (call_hook 7 ''leave_expressions_list'' 7
               (call_hook 7 ''visit_expressions_list'' 7 st)))"
    "accept 3 h_warp 7 6 st = Some (Inr (call_hook 7 ''leave_variables_list'' 6
               (call_hook 7 ''leave_identifier'' 2 (call_hook 7 ''visit_identifier'' 2
               (call_hook 7 ''visit_variables_list'' 6 st)))))" for st
    by (simp_all add: h_warp_def eval_nat_numeral)
  have cls: "4 < length h_warp \<and> obj_class (h_warp ! 4) = UnconditionalWarp"
    "1 < length h_warp \<and> obj_class (h_warp ! 1) = ConditionalWarp \<and>
       map_of (attrs (h_warp ! 1)) ''condition'' = Some (PObj 2)"
    "5 < length h_warp \<and> obj_class (h_warp ! 5) = IteratorWarp \<and>
       map_of (attrs (h_warp ! 5)) ''variables'' = Some (PObj 6) \<and>
       map_of (attrs (h_warp ! 5)) ''controls'' = Some (PObj 7)"
    "8 < length h_warp \<and> obj_class (h_warp ! 8) = NumericLoopWarp \<and>
       map_of (attrs (h_warp ! 8)) ''index'' = Some (PObj 2) \<and>
       map_of (attrs (h_warp ! 8)) ''controls'' = Some (PObj 7)"
    by (simp_all add: h_warp_def)
  note W = warp_targets_not_visited [where h = h_warp and v = 7 and st = st0 and n = 3]
  have "accept (Suc 3) (cut_targets h_warp) 7 0 st0 = accept (Suc 3) h_warp 7 0 st0"
    using warp_targets_not_visited [of "Suc 3" h_warp 7 0 st0] by simp
  moreover have "accept (Suc 3) h_warp 7 4 st0 =
     Some (Inr \<lparr>events = [(7, ''visit_unconditional_warp'', 4), (7, ''leave_unconditional_warp'', 4)],
                anti_loop = {}, cur_visitor = None\<rparr>)"
    using W [where self = 4] cls(1) by (simp add: call_hook_def st0_def)
  moreover have "accept (Suc 3) h_warp 7 1 st0 =
     Some (Inr \<lparr>events = [(7, ''visit_conditional_warp'', 1), (7, ''visit_identifier'', 2),
                          (7, ''leave_identifier'', 2), (7, ''leave_conditional_warp'', 1)],
                anti_loop = {}, cur_visitor = None\<rparr>)"
    using W [where self = 1 and c = 2] cls(2) by (simp add: sub call_hook_def st0_def)
  moreover have "accept (Suc 3) h_warp 7 5 st0 =
     Some (Inr \<lparr>events = [(7, ''visit_iterator_warp'', 5), (7, ''visit_variables_list'', 6),
                          (7, ''visit_identifier'', 2), (7, ''leave_identifier'', 2),
                          (7, ''leave_variables_list'', 6), (7, ''visit_expressions_list'', 7),
                          (7, ''leave_expressions_list'', 7), (7, ''leave_iterator_warp'', 5)],
                anti_loop = {}, cur_visitor = None\<rparr>)"
    using W [where self = 5 and vs = 6 and cs = 7] cls(3) by (simp add: sub call_hook_def st0_def)
  moreover have "accept (Suc 3) h_warp 7 8 st0 =
     Some (Inr \<lparr>events = [(7, ''visit_numeric_loop_warp'', 8), (7, ''visit_identifier'', 2),
                          (7, ''leave_identifier'', 2), (7, ''visit_expressions_list'', 7),
                          (7, ''leave_expressions_list'', 7), (7, ''leave_numeric_loop_warp'', 8)],
                anti_loop = {}, cur_visitor = None\<rparr>)"
    using W [where self = 8 and vs = 2 and cs = 7] cls(4) by (simp add: sub call_hook_def st0_def)
  ultimately show ?thesis using cls by simp
qed

subsection \<open>Hooks that start traversals: more fuel never changes a result\<close>

lemma run_traversals_mono:
  assumes "\<And>w a st r. acc w a st = Some r \<Longrightarrow> acc' w a st = Some r"
  shows "run_traversals acc ts st = Some r \<Longrightarrow> run_traversals acc' ts st = Some r"
proof (induction ts arbitrary: st)
  case Nil
  then show ?case by simp
next
  case (Cons t ts)
  obtain w root where t: "t = (w, root)" by (cases t)
  from Cons.prems t obtain r1 where r1: "acc w root st = Some r1"
    by (auto split: option.splits)
  then have r1': "acc' w root st = Some r1" by (rule assms)
  show ?case
  proof (cases r1)
    case (Inl e)
    with Cons.prems r1 r1' t show ?thesis by auto
  next
    case (Inr st1)
    with Cons.prems r1 t have "run_traversals acc ts st1 = Some r" by simp
    then have "run_traversals acc' ts st1 = Some r" by (rule Cons.IH)
    with r1' Inr t show ?thesis by simp
  qed
qed

lemma hooked_step_mono:
  assumes "\<And>w a st r. acc w a st = Some r \<Longrightarrow> acc' w a st = Some r"
  shows "hooked_step acc hk ob v self s st = Some r \<Longrightarrow> hooked_step acc' hk ob v self s st = Some r"
  using visit_mono [of "acc v" "acc' v", OF assms] visit_list_mono [of "acc v" "acc' v", OF assms]
    run_traversals_mono [of acc acc', OF assms]
  by (cases s) (auto split: option.splits pyval.splits)

lemma hooked_steps_mono:
  assumes "\<And>w a st r. acc w a st = Some r \<Longrightarrow> acc' w a st = Some r"
  shows "hooked_steps acc hk ob v self ss st = Some r \<Longrightarrow> hooked_steps acc' hk ob v self ss st = Some r"
proof (induction ss arbitrary: st)
  case Nil
  then show ?case by simp
next
  case (Cons s ss)
  from Cons.prems obtain r1 where r1: "hooked_step acc hk ob v self s st = Some r1"
    by (auto split: option.splits)
  then have r1': "hooked_step acc' hk ob v self s st = Some r1"
    using assms by (rule hooked_step_mono [rotated])
  show ?case
  proof (cases r1)
    case (Inl e)
    with Cons.prems r1 r1' show ?thesis by auto
  next
    case (Inr st1)
    with Cons.prems r1 have "hooked_steps acc hk ob v self ss st1 = Some r" by simp
    then have "hooked_steps acc' hk ob v self ss st1 = Some r" by (rule Cons.IH)
    with r1' Inr show ?thesis by simp
  qed
qed

lemma accept_hooked_Suc_mono:
  "accept_hooked hk n h v a st = Some r \<Longrightarrow> accept_hooked hk (Suc n) h v a st = Some r"
proof (induction n arbitrary: v a st r)
  case 0
  then show ?case by simp
next
  case (Suc n)
  have step: "\<And>ob v self ss st r. hooked_steps (accept_hooked hk n h) hk ob v self ss st = Some r \<Longrightarrow>
      hooked_steps (accept_hooked hk (Suc n) h) hk ob v self ss st = Some r"
    by (rule hooked_steps_mono [rotated], assumption, rule Suc.IH)
  from Suc.prems show ?case
    by (subst accept_hooked.simps(2)) (auto simp del: accept_body.simps split: if_splits dest: step)
qed

lemma accept_hooked_mono:
  "accept_hooked hk n h v a st = Some r \<Longrightarrow> n \<le> m \<Longrightarrow> accept_hooked hk m h v a st = Some r"
  by (induction m) (auto simp: le_Suc_eq dest: accept_hooked_Suc_mono simp del: accept_hooked.simps)

subsection \<open>The guard of \<^verbatim>\<open>TableConstructor._accept\<close>\<close>

lemma tables_entered_refl [simp]: "tables_entered v st st = []"
  by (simp add: tables_entered_def)

lemma tables_entered_trans:
  "extends st st1 \<Longrightarrow> extends st1 st2 \<Longrightarrow>
   tables_entered v st st2 = tables_entered v st st1 @ tables_entered v st1 st2"
  by (auto simp: extends_def tables_entered_def)

lemma guard_inv_refl [simp]: "guard_inv v st st"
  by (simp add: guard_inv_def)

lemma guard_inv_trans:
  assumes 1: "guard_inv v st st1" and 2: "guard_inv v st1 st2"
  shows "guard_inv v st st2"
proof -
  from 1 2 have e: "extends st st1" "extends st1 st2" by (simp_all add: guard_inv_def)
  note t = tables_entered_trans [OF e, of v]
  show ?thesis
  proof (cases "cur_visitor st1 = Some v")
    case True
    then have sv: "same_visitor v st1" by (simp add: same_visitor_def)
    with 1 2 e t True show ?thesis
      unfolding guard_inv_def by (auto intro: extends_trans)
  next
    case False
    with 1 have same: "anti_loop st1 = anti_loop st" "cur_visitor st1 = cur_visitor st"
      "tables_entered v st st1 = []"
      by (auto simp: guard_inv_def)
    with 2 e t show ?thesis
      unfolding guard_inv_def same_visitor_def by (auto intro: extends_trans)
  qed
qed

lemma guard_inv_call_hook:
  "name \<noteq> ''visit_table_constructor'' \<Longrightarrow> guard_inv v st (call_hook v name a st)"
  by (simp add: guard_inv_def tables_entered_def call_hook_def extends_def)

lemma guard_inv_enter_table: "guard_inv v st (enter_table v st)"
  by (auto simp: guard_inv_def tables_entered_def enter_table_def same_visitor_def extends_def
      split: option.splits)

lemma guard_inv_enter_new_table:
  "a \<notin> anti_loop (enter_table v st) \<Longrightarrow>
   guard_inv v st (call_hook v ''visit_table_constructor'' a
            ((enter_table v st)\<lparr>anti_loop := insert a (anti_loop (enter_table v st))\<rparr>))"
  by (auto simp: guard_inv_def tables_entered_def enter_table_def same_visitor_def call_hook_def
      extends_def split: option.splits)

lemma visit_list_guard_inv:
  assumes "\<And>a st st'. acc a st = Some (Inr st') \<Longrightarrow> guard_inv v st st'"
  shows "visit_list acc xs st = Some (Inr st') \<Longrightarrow> guard_inv v st st'"
proof (induction xs arbitrary: st)
  case Nil
  then show ?case by simp
next
  case (Cons x xs)
  then obtain st1 where 1: "visit acc x st = Some (Inr st1)" and 2: "visit_list acc xs st1 = Some (Inr st')"
    by (auto split: option.splits sum.splits)
  from 1 have "guard_inv v st st1" using assms by (cases x) auto
  with Cons.IH [OF 2] show ?case by (blast intro: guard_inv_trans)
qed

lemma body_no_table_hook:
  "c \<noteq> TableConstructor \<Longrightarrow>
   VisitNode ''visit_table_constructor'' \<notin> set (accept_body c) \<and>
   LeaveNode ''visit_table_constructor'' \<notin> set (accept_body c)"
  by (cases c) auto

lemma own_traversalsD: "own_traversals v hk \<Longrightarrow> \<forall>t\<in>set (hk v name a). fst t = v"
  unfolding own_traversals_def by blast

lemma run_traversals_guard_inv:
  assumes "\<And>a st st'. acc v a st = Some (Inr st') \<Longrightarrow> guard_inv v st st'"
    and "\<forall>t\<in>set ts. fst t = v"
  shows "run_traversals acc ts st = Some (Inr st') \<Longrightarrow> guard_inv v st st'"
  using assms(2)
proof (induction ts arbitrary: st)
  case Nil
  then show ?case by simp
next
  case (Cons t ts)
  obtain w root where t: "t = (w, root)" by (cases t)
  with Cons.prems have w: "w = v" by simp
  from Cons.prems(1) t w obtain st1 where 1: "acc v root st = Some (Inr st1)"
    and 2: "run_traversals acc ts st1 = Some (Inr st')"
    by (auto split: option.splits sum.splits)
  from 1 have "guard_inv v st st1" by (rule assms(1))
  moreover from 2 Cons.prems(2) have "guard_inv v st1 st'" by (intro Cons.IH) auto
  ultimately show ?case by (rule guard_inv_trans)
qed

lemma hooked_step_guard_inv:
  assumes acc: "\<And>a st st'. acc v a st = Some (Inr st') \<Longrightarrow> guard_inv v st st'"
    and own: "own_traversals v hk"
    and "s \<noteq> VisitNode ''visit_table_constructor''"
    and "s \<noteq> LeaveNode ''visit_table_constructor''"
  shows "hooked_step acc hk ob v self s st = Some (Inr st') \<Longrightarrow> guard_inv v st st'"
proof (cases s)
  case (Visit f)
  assume "hooked_step acc hk ob v self s st = Some (Inr st')"
  with Visit obtain x where "visit (acc v) x st = Some (Inr st')"
    by (auto split: option.splits)
  then show ?thesis using acc by (cases x) auto
next
  case (VisitList f)
  assume "hooked_step acc hk ob v self s st = Some (Inr st')"
  with VisitList obtain xs where "visit_list (acc v) xs st = Some (Inr st')"
    by (auto split: option.splits pyval.splits)
  then show ?thesis using acc by (rule visit_list_guard_inv [rotated])
next
  case (VisitNode name)
  assume "hooked_step acc hk ob v self s st = Some (Inr st')"
  with VisitNode have r: "run_traversals acc (hk v name self) (call_hook v name self st) = Some (Inr st')"
    by simp
  from VisitNode assms(3) have "name \<noteq> ''visit_table_constructor''" by simp
  then have "guard_inv v st (call_hook v name self st)" by (rule guard_inv_call_hook)
  moreover have "guard_inv v (call_hook v name self st) st'"
    by (rule run_traversals_guard_inv [where acc = acc and v = v, OF acc own_traversalsD [OF own] r])
  ultimately show ?thesis by (rule guard_inv_trans)
next
  case (LeaveNode name)
  assume "hooked_step acc hk ob v self s st = Some (Inr st')"
  with LeaveNode have r: "run_traversals acc (hk v name self) (call_hook v name self st) = Some (Inr st')"
    by simp
  from LeaveNode assms(4) have "name \<noteq> ''visit_table_constructor''" by simp
  then have "guard_inv v st (call_hook v name self st)" by (rule guard_inv_call_hook)
  moreover have "guard_inv v (call_hook v name self st) st'"
    by (rule run_traversals_guard_inv [where acc = acc and v = v, OF acc own_traversalsD [OF own] r])
  ultimately show ?thesis by (rule guard_inv_trans)
qed

lemma hooked_steps_guard_inv:
  assumes acc: "\<And>a st st'. acc v a st = Some (Inr st') \<Longrightarrow> guard_inv v st st'"
    and own: "own_traversals v hk"
    and "VisitNode ''visit_table_constructor'' \<notin> set ss"
    and "LeaveNode ''visit_table_constructor'' \<notin> set ss"
  shows "hooked_steps acc hk ob v self ss st = Some (Inr st') \<Longrightarrow> guard_inv v st st'"
  using assms(3,4)
proof (induction ss arbitrary: st)
  case Nil
  then show ?case by simp
next
  case (Cons s ss)
  then obtain st1 where 1: "hooked_step acc hk ob v self s st = Some (Inr st1)"
    and 2: "hooked_steps acc hk ob v self ss st1 = Some (Inr st')"
    by (auto split: option.splits sum.splits)
  have "guard_inv v st st1"
  proof (rule hooked_step_guard_inv [OF _ own _ _ 1])
    show "\<And>a st st'. acc v a st = Some (Inr st') \<Longrightarrow> guard_inv v st st'" by (rule acc)
  qed (use Cons.prems in auto)
  moreover from 2 Cons.prems have "guard_inv v st1 st'" by (intro Cons.IH) auto
  ultimately show ?case by (rule guard_inv_trans)
qed

lemma accept_hooked_guard_inv:
  assumes own: "own_traversals v hk"
  shows "accept_hooked hk n h v a st = Some (Inr st') \<Longrightarrow> guard_inv v st st'"
proof (induction n arbitrary: a st st')
  case 0
  then show ?case by simp
next
  case (Suc n)
  have ih: "\<And>a st st'. accept_hooked hk n h v a st = Some (Inr st') \<Longrightarrow> guard_inv v st st'"
    by (rule Suc.IH)
  have steps: "guard_inv v st1 st2"
    if "VisitNode ''visit_table_constructor'' \<notin> set ss"
      and "LeaveNode ''visit_table_constructor'' \<notin> set ss"
      and "hooked_steps (accept_hooked hk n h) hk ob v self ss st1 = Some (Inr st2)"
    for ob self ss st1 st2
    using ih own that by (rule hooked_steps_guard_inv)
  from Suc.prems have a: "a < length h" by (auto split: if_splits)
  show ?case
  proof (cases "obj_class (h ! a) = TableConstructor")
    case False
    with Suc.prems a have r0: "hooked_steps (accept_hooked hk n h) hk (h ! a) v a
          (accept_body (obj_class (h ! a))) st = Some (Inr st')"
      by simp
    show ?thesis
      using body_no_table_hook [OF False] by (intro steps [OF _ _ r0]) simp_all
  next
    case True
    show ?thesis
    proof (cases "a \<in> anti_loop (enter_table v st)")
      case True
      with Suc.prems a \<open>obj_class (h ! a) = TableConstructor\<close> show ?thesis
        by (auto simp: guard_inv_enter_table)
    next
      case False
      let ?st1 = "call_hook v ''visit_table_constructor'' a
            ((enter_table v st)\<lparr>anti_loop := insert a (anti_loop (enter_table v st))\<rparr>)"
      from Suc.prems a True False
      obtain st2 where t: "run_traversals (accept_hooked hk n h) (hk v ''visit_table_constructor'' a) ?st1
             = Some (Inr st2)"
        and r: "hooked_steps (accept_hooked hk n h) hk (h ! a) v a
              [Visit ''array'', Visit ''records'', LeaveNode ''leave_table_constructor''] st2
            = Some (Inr st')"
        by (auto split: option.splits sum.splits)
      have "guard_inv v ?st1 st2"
        by (rule run_traversals_guard_inv [where acc = "accept_hooked hk n h" and v = v,
              OF ih own_traversalsD [OF own] t])
      moreover have "guard_inv v st2 st'" by (rule steps [OF _ _ r]) simp_all
      ultimately have "guard_inv v ?st1 st'" by (rule guard_inv_trans)
      with guard_inv_enter_new_table [OF False] show ?thesis by (rule guard_inv_trans)
    qed
  qed
qed


subsection \<open>Termination on tables that contain themselves\<close>

lemma set_nodes_of [simp]: "b \<in> set (nodes_of xs) \<longleftrightarrow> PObj b \<in> set xs"
  by (induction xs rule: nodes_of.induct) auto

lemma guard_inv_eff: "guard_inv v st st' \<Longrightarrow> eff v st \<subseteq> eff v st'"
  by (auto simp: guard_inv_def eff_def same_visitor_def split: if_splits)

lemma guard_inv_unentered: "guard_inv v st st' \<Longrightarrow> unentered h v st' \<le> unentered h v st"
  unfolding unentered_def by (intro card_mono) (auto dest: guard_inv_eff)

lemma unentered_call_hook [simp]: "unentered h v (call_hook v' name a st) = unentered h v st"
  by (simp add: unentered_def eff_def same_visitor_def call_hook_def)

lemma accept_hooked_unentered:
  "accept_hooked hk n h v a st = Some (Inr st') \<Longrightarrow> own_traversals v hk \<Longrightarrow>
   unentered h v st' \<le> unentered h v st"
  by (blast dest: accept_hooked_guard_inv guard_inv_unentered)

lemma visit_list_hooked_unentered:
  assumes own: "own_traversals v hk"
  shows "visit_list (accept_hooked hk n h v) xs st = Some (Inr st') \<Longrightarrow>
     unentered h v st' \<le> unentered h v st"
proof (induction xs arbitrary: st)
  case Nil
  then show ?case by simp
next
  case (Cons x xs)
  then obtain st1 where 1: "visit (accept_hooked hk n h v) x st = Some (Inr st1)"
    and 2: "visit_list (accept_hooked hk n h v) xs st1 = Some (Inr st')"
    by (auto split: option.splits sum.splits)
  from 1 have "unentered h v st1 \<le> unentered h v st"
    by (cases x) (auto dest: accept_hooked_unentered [OF _ own])
  with Cons.IH [OF 2] show ?case by simp
qed

lemma run_traversals_unentered:
  assumes own: "own_traversals v hk" and ts: "\<forall>t\<in>set ts. fst t = v"
  shows "run_traversals (accept_hooked hk n h) ts st = Some (Inr st') \<Longrightarrow>
     unentered h v st' \<le> unentered h v st"
  using ts
proof (induction ts arbitrary: st)
  case Nil
  then show ?case by simp
next
  case (Cons t ts)
  obtain w root where t: "t = (w, root)" by (cases t)
  with Cons.prems have w: "w = v" by simp
  from Cons.prems(1) t w obtain st1 where 1: "accept_hooked hk n h v root st = Some (Inr st1)"
    and 2: "run_traversals (accept_hooked hk n h) ts st1 = Some (Inr st')"
    by (auto split: option.splits sum.splits)
  from 1 have "unentered h v st1 \<le> unentered h v st"
    by (rule accept_hooked_unentered [OF _ own])
  moreover from 2 Cons.prems(2) have "unentered h v st' \<le> unentered h v st1"
    by (intro Cons.IH) auto
  ultimately show ?case by simp
qed

lemma hooked_step_unentered:
  assumes own: "own_traversals v hk"
  shows "hooked_step (accept_hooked hk n h) hk ob v self s st = Some (Inr st') \<Longrightarrow>
   unentered h v st' \<le> unentered h v st"
proof (cases s)
  case (Visit f)
  assume "hooked_step (accept_hooked hk n h) hk ob v self s st = Some (Inr st')"
  with Visit obtain x where "visit (accept_hooked hk n h v) x st = Some (Inr st')"
    by (auto split: option.splits)
  then show ?thesis by (cases x) (auto dest: accept_hooked_unentered [OF _ own])
next
  case (VisitList f)
  assume "hooked_step (accept_hooked hk n h) hk ob v self s st = Some (Inr st')"
  with VisitList obtain xs where "visit_list (accept_hooked hk n h v) xs st = Some (Inr st')"
    by (auto split: option.splits pyval.splits)
  then show ?thesis by (rule visit_list_hooked_unentered [OF own])
next
  case (VisitNode name)
  assume "hooked_step (accept_hooked hk n h) hk ob v self s st = Some (Inr st')"
  with VisitNode have "run_traversals (accept_hooked hk n h) (hk v name self)
      (call_hook v name self st) = Some (Inr st')" by simp
  from run_traversals_unentered [OF own own_traversalsD [OF own] this]
  show ?thesis by simp
next
  case (LeaveNode name)
  assume "hooked_step (accept_hooked hk n h) hk ob v self s st = Some (Inr st')"
  with LeaveNode have "run_traversals (accept_hooked hk n h) (hk v name self)
      (call_hook v name self st) = Some (Inr st')" by simp
  from run_traversals_unentered [OF own own_traversalsD [OF own] this]
  show ?thesis by simp
qed

lemma visit_list_hooked_total:
  assumes own: "own_traversals v hk"
    and tot: "\<And>b st1. PObj b \<in> set xs \<Longrightarrow> unentered h v st1 \<le> k \<Longrightarrow>
                  \<exists>n r. accept_hooked hk n h v b st1 = Some r"
    and "unentered h v st \<le> k"
  shows "\<exists>n r. visit_list (accept_hooked hk n h v) xs st = Some r"
  using assms(2,3)
proof (induction xs arbitrary: st)
  case Nil
  then show ?case by simp
next
  case (Cons x xs)
  have "\<exists>n1 r1. visit (accept_hooked hk n1 h v) x st = Some r1"
    using Cons.prems(1) [of _ st] Cons.prems(2) by (cases x) auto
  then obtain n1 r1 where 1: "visit (accept_hooked hk n1 h v) x st = Some r1" by blast
  show ?case
  proof (cases r1)
    case (Inl e)
    with 1 have "visit_list (accept_hooked hk n1 h v) (x # xs) st = Some (Inl e)" by simp
    then show ?thesis by blast
  next
    case (Inr st1)
    with 1 have "unentered h v st1 \<le> unentered h v st"
      by (cases x) (auto dest: accept_hooked_unentered [OF _ own])
    with Cons.prems(2) have "unentered h v st1 \<le> k" by simp
    then have "\<exists>n r. visit_list (accept_hooked hk n h v) xs st1 = Some r"
      using Cons.prems(1) by (intro Cons.IH) auto
    then obtain n2 r2 where 2: "visit_list (accept_hooked hk n2 h v) xs st1 = Some r2" by blast
    have m1: "\<And>a st r. accept_hooked hk n1 h v a st = Some r \<Longrightarrow>
        accept_hooked hk (max n1 n2) h v a st = Some r"
      by (erule accept_hooked_mono) simp
    have m2: "\<And>a st r. accept_hooked hk n2 h v a st = Some r \<Longrightarrow>
        accept_hooked hk (max n1 n2) h v a st = Some r"
      by (erule accept_hooked_mono) simp
    have "visit (accept_hooked hk (max n1 n2) h v) x st = Some r1"
      by (rule visit_mono [OF m1 1])
    moreover have "visit_list (accept_hooked hk (max n1 n2) h v) xs st1 = Some r2"
      by (rule visit_list_mono [OF m2 2])
    ultimately have "visit_list (accept_hooked hk (max n1 n2) h v) (x # xs) st = Some r2"
      using Inr by simp
    then show ?thesis by blast
  qed
qed

lemma run_traversals_total:
  assumes own: "own_traversals v hk"
    and tot: "\<And>b st1. b \<in> snd ` set ts \<Longrightarrow> unentered h v st1 \<le> k \<Longrightarrow>
                  \<exists>n r. accept_hooked hk n h v b st1 = Some r"
    and ts: "\<forall>t\<in>set ts. fst t = v"
    and "unentered h v st \<le> k"
  shows "\<exists>n r. run_traversals (accept_hooked hk n h) ts st = Some r"
  using assms(2,3,4)
proof (induction ts arbitrary: st)
  case Nil
  then show ?case by simp
next
  case (Cons t ts)
  obtain w root where t: "t = (w, root)" by (cases t)
  with Cons.prems have w: "w = v" by simp
  have "\<exists>n1 r1. accept_hooked hk n1 h v root st = Some r1"
    using Cons.prems(1) [of root st] Cons.prems(3) t by force
  then obtain n1 r1 where 1: "accept_hooked hk n1 h v root st = Some r1" by blast
  show ?case
  proof (cases r1)
    case (Inl e)
    with 1 t w have "run_traversals (accept_hooked hk n1 h) (t # ts) st = Some (Inl e)" by simp
    then show ?thesis by blast
  next
    case (Inr st1)
    with 1 have "unentered h v st1 \<le> unentered h v st"
      by (auto dest: accept_hooked_unentered [OF _ own])
    with Cons.prems(3) have "unentered h v st1 \<le> k" by simp
    then have "\<exists>n r. run_traversals (accept_hooked hk n h) ts st1 = Some r"
      using Cons.prems(1,2) by (intro Cons.IH) auto
    then obtain n2 r2 where 2: "run_traversals (accept_hooked hk n2 h) ts st1 = Some r2" by blast
    have m1: "accept_hooked hk (max n1 n2) h v root st = Some r1"
      using 1 by (rule accept_hooked_mono) simp
    have m2: "\<And>w a st r. accept_hooked hk n2 h w a st = Some r \<Longrightarrow>
        accept_hooked hk (max n1 n2) h w a st = Some r"
      by (erule accept_hooked_mono) simp
    have "run_traversals (accept_hooked hk (max n1 n2) h) ts st1 = Some r2"
      by (rule run_traversals_mono [OF m2 2])
    with m1 Inr t w have "run_traversals (accept_hooked hk (max n1 n2) h) (t # ts) st = Some r2"
      by simp
    then show ?thesis by blast
  qed
qed

lemma hooked_step_total:
  assumes own: "own_traversals v hk"
    and tot: "\<And>b st1. b \<in> set (nodes_of (step_children ob s) @ hook_roots hk v self s) \<Longrightarrow>
                  unentered h v st1 \<le> k \<Longrightarrow> \<exists>n r. accept_hooked hk n h v b st1 = Some r"
    and k: "unentered h v st \<le> k"
  shows "\<exists>n r. hooked_step (accept_hooked hk n h) hk ob v self s st = Some r"
proof (cases s)
  case (Visit f)
  show ?thesis
  proof (cases "map_of (attrs ob) f")
    case None
    with Visit show ?thesis by simp
  next
    case (Some x)
    with Visit tot [of _ st] k show ?thesis by (cases x) auto
  qed
next
  case (VisitList f)
  show ?thesis
  proof (cases "map_of (attrs ob) f")
    case None
    with VisitList show ?thesis by simp
  next
    case (Some x)
    show ?thesis
    proof (cases x)
      case (PList xs)
      with Some VisitList tot have "\<And>b st1. PObj b \<in> set xs \<Longrightarrow> unentered h v st1 \<le> k \<Longrightarrow>
                  \<exists>n r. accept_hooked hk n h v b st1 = Some r"
        by simp
      from visit_list_hooked_total [OF own this k] PList Some VisitList
      show ?thesis by simp
    qed (use Some VisitList in auto)
  qed
next
  case (VisitNode name)
  have k': "unentered h v (call_hook v name self st) \<le> k" using k by simp
  have "\<exists>n r. run_traversals (accept_hooked hk n h) (hk v name self) (call_hook v name self st) = Some r"
  proof (rule run_traversals_total [OF own _ own_traversalsD [OF own] k'])
    fix b st1 assume "b \<in> snd ` set (hk v name self)" "unentered h v st1 \<le> k"
    then show "\<exists>n r. accept_hooked hk n h v b st1 = Some r"
      using VisitNode by (intro tot) auto
  qed
  with VisitNode show ?thesis by simp
next
  case (LeaveNode name)
  have k': "unentered h v (call_hook v name self st) \<le> k" using k by simp
  have "\<exists>n r. run_traversals (accept_hooked hk n h) (hk v name self) (call_hook v name self st) = Some r"
  proof (rule run_traversals_total [OF own _ own_traversalsD [OF own] k'])
    fix b st1 assume "b \<in> snd ` set (hk v name self)" "unentered h v st1 \<le> k"
    then show "\<exists>n r. accept_hooked hk n h v b st1 = Some r"
      using LeaveNode by (intro tot) auto
  qed
  with LeaveNode show ?thesis by simp
qed

lemma hooked_steps_total:
  assumes own: "own_traversals v hk"
    and tot: "\<And>b st1. b \<in> set (concat (map (\<lambda>s. nodes_of (step_children ob s) @ hook_roots hk v self s) ss)) \<Longrightarrow>
                  unentered h v st1 \<le> k \<Longrightarrow> \<exists>n r. accept_hooked hk n h v b st1 = Some r"
    and "unentered h v st \<le> k"
  shows "\<exists>n r. hooked_steps (accept_hooked hk n h) hk ob v self ss st = Some r"
  using assms(2,3)
proof (induction ss arbitrary: st)
  case Nil
  then show ?case by simp
next
  case (Cons s ss)
  have "\<exists>n1 r1. hooked_step (accept_hooked hk n1 h) hk ob v self s st = Some r1"
    using Cons.prems by (intro hooked_step_total [OF own, where k = k]) auto
  then obtain n1 r1 where 1: "hooked_step (accept_hooked hk n1 h) hk ob v self s st = Some r1" by blast
  show ?case
  proof (cases r1)
    case (Inl e)
    with 1 have "hooked_steps (accept_hooked hk n1 h) hk ob v self (s # ss) st = Some (Inl e)" by simp
    then show ?thesis by blast
  next
    case (Inr st1)
    with 1 have "unentered h v st1 \<le> unentered h v st"
      by (auto dest: hooked_step_unentered [OF own])
    with Cons.prems(2) have "unentered h v st1 \<le> k" by simp
    then have "\<exists>n r. hooked_steps (accept_hooked hk n h) hk ob v self ss st1 = Some r"
      using Cons.prems(1) by (intro Cons.IH) auto
    then obtain n2 r2 where 2: "hooked_steps (accept_hooked hk n2 h) hk ob v self ss st1 = Some r2" by blast
    have m1: "\<And>w a st r. accept_hooked hk n1 h w a st = Some r \<Longrightarrow>
        accept_hooked hk (max n1 n2) h w a st = Some r"
      by (erule accept_hooked_mono) simp
    have m2: "\<And>w a st r. accept_hooked hk n2 h w a st = Some r \<Longrightarrow>
        accept_hooked hk (max n1 n2) h w a st = Some r"
      by (erule accept_hooked_mono) simp
    have "hooked_step (accept_hooked hk (max n1 n2) h) hk ob v self s st = Some r1"
      by (rule hooked_step_mono [OF m1 1])
    moreover have "hooked_steps (accept_hooked hk (max n1 n2) h) hk ob v self ss st1 = Some r2"
      by (rule hooked_steps_mono [OF m2 2])
    ultimately have "hooked_steps (accept_hooked hk (max n1 n2) h) hk ob v self (s # ss) st = Some r2"
      using Inr by simp
    then show ?thesis by blast
  qed
qed

lemma accept_hooked_total_aux:
  assumes own: "own_traversals v hk" and acyc: "cycles_pass_tables rank hk v h"
  shows "x < length h \<Longrightarrow> unentered h v st \<le> k \<Longrightarrow> \<exists>n r. accept_hooked hk n h v x st = Some r"
proof (induction k arbitrary: x st rule: less_induct)
  case (less k)
  note outer = less.IH
  from less.prems show ?case
  proof (induction "rank x" arbitrary: x st rule: less_induct)
    case less
    note inner = less.hyps
    note x = \<open>x < length h\<close> and k = \<open>unentered h v st \<le> k\<close>
    have kids: "b < length h \<and> (obj_class (h ! x) = TableConstructor \<or> rank b < rank x)"
      if "b \<in> set (traversed_from hk v h x)" for b
      using acyc x that by (auto simp: cycles_pass_tables_def list_all_iff)
    show ?case
    proof (cases "obj_class (h ! x) = TableConstructor")
      case False
      have "\<exists>n r. hooked_steps (accept_hooked hk n h) hk (h ! x) v x
                (accept_body (obj_class (h ! x))) st = Some r"
      proof (rule hooked_steps_total [OF own _ k])
        fix b st1
        assume "b \<in> set (concat (map (\<lambda>s. nodes_of (step_children (h ! x) s) @ hook_roots hk v x s)
                     (accept_body (obj_class (h ! x)))))"
          and k1: "unentered h v st1 \<le> k"
        then have "b \<in> set (traversed_from hk v h x)" by (simp add: traversed_from_def)
        with kids False have "b < length h" "rank b < rank x" by auto
        then show "\<exists>n r. accept_hooked hk n h v b st1 = Some r" using k1 by (intro inner)
      qed
      then obtain n r where
        "hooked_steps (accept_hooked hk n h) hk (h ! x) v x (accept_body (obj_class (h ! x))) st = Some r"
        by blast
      with x False have "accept_hooked hk (Suc n) h v x st = Some r" by simp
      then show ?thesis by blast
    next
      case True
      show ?thesis
      proof (cases "x \<in> anti_loop (enter_table v st)")
        case True
        with x \<open>obj_class (h ! x) = TableConstructor\<close>
        have "accept_hooked hk (Suc 0) h v x st = Some (Inr (enter_table v st))" by simp
        then show ?thesis by blast
      next
        case False
        let ?st1 = "(enter_table v st)\<lparr>anti_loop := insert x (anti_loop (enter_table v st))\<rparr>"
        have al: "anti_loop (enter_table v st) = eff v st"
          and cv: "cur_visitor (enter_table v st) = Some v"
          by (auto simp: enter_table_def eff_def same_visitor_def split: option.splits)
        have eff1: "eff v ?st1 = insert x (eff v st)"
          using al cv by (simp add: eff_def same_visitor_def)
        have "x \<in> {a. a < length h \<and> obj_class (h ! a) = TableConstructor} - eff v st"
          using x True False al by simp
        then have lt: "unentered h v ?st1 < unentered h v st"
          unfolding unentered_def eff1
          by (intro psubset_card_mono) auto
        define j where "j = unentered h v ?st1"
        with lt k have j: "j < k" "unentered h v ?st1 \<le> j"
          by simp_all
        have "\<exists>n r. hooked_steps (accept_hooked hk n h) hk (h ! x) v x
                 (accept_body TableConstructor) ?st1 = Some r"
        proof (rule hooked_steps_total [OF own _ j(2)])
          fix b st1
          assume "b \<in> set (concat (map (\<lambda>s. nodes_of (step_children (h ! x) s) @ hook_roots hk v x s)
                     (accept_body TableConstructor)))"
            and k1: "unentered h v st1 \<le> j"
          then have "b \<in> set (traversed_from hk v h x)" using True by (simp add: traversed_from_def)
          with kids have "b < length h" by auto
          then show "\<exists>n r. accept_hooked hk n h v b st1 = Some r" using k1 j(1) by (intro outer)
        qed
        then obtain n r where
          "hooked_steps (accept_hooked hk n h) hk (h ! x) v x (accept_body TableConstructor) ?st1 = Some r"
          by blast
        with x True False have "accept_hooked hk (Suc n) h v x st = Some r" by simp
        then show ?thesis by blast
      qed
    qed
  qed
qed

text \<open>
  C9, as the code has it. Let no hook of visitor \<open>v\<close> hand a node to another visitor
  object (its hooks may start traversals by \<open>v\<close> itself). Then in one traversal by
  \<open>v\<close>, from any state, the hook \<^verbatim>\<open>visit_table_constructor\<close> is called at most once on
  each node, and \<^verbatim>\<open>anti_loop\<close> loses no element unless a different visitor was the last
  to enter a table before. Whatever the hooks do: a \<^verbatim>\<open>TableConstructor\<close> that is in
  \<^verbatim>\<open>anti_loop\<close> after the guard is skipped, with no hook called, and the guard empties
  \<^verbatim>\<open>anti_loop\<close> exactly when a different visitor was the last to enter a table. On a
  heap whose cycles among the visited fields and the roots of the hooks all pass through
  a \<^verbatim>\<open>TableConstructor\<close>, the traversal of every node by \<open>v\<close> returns (normally or with
  an exception) for enough fuel.
\<close>

theorem table_constructor_entered_once:
  "(own_traversals v hk \<and> accept_hooked hk n h v x st = Some (Inr st') \<longrightarrow>
      distinct (tables_entered v st st') \<and>
      (same_visitor v st \<longrightarrow> anti_loop st \<subseteq> anti_loop st')) \<and>
   (a < length h \<and> obj_class (h ! a) = TableConstructor \<and> a \<in> anti_loop (enter_table v st) \<longrightarrow>
      accept_hooked hk (Suc n) h v a st = Some (Inr (enter_table v st)) \<and>
      events (enter_table v st) = events st) \<and>
   anti_loop (enter_table v st) = (if same_visitor v st then anti_loop st else {}) \<and>
   (own_traversals v hk \<and> cycles_pass_tables rank hk v h \<and> x < length h \<longrightarrow>
      (\<exists>m r. accept_hooked hk m h v x st = Some r))"
proof (intro conjI impI)
  assume A: "own_traversals v hk \<and> accept_hooked hk n h v x st = Some (Inr st')"
  then have guard_inv: "guard_inv v st st'" by (blast intro: accept_hooked_guard_inv)
  then show "distinct (tables_entered v st st')" by (simp add: guard_inv_def)
  show "anti_loop st \<subseteq> anti_loop st'" if "same_visitor v st"
    using guard_inv that by (simp add: guard_inv_def)
next
  assume "a < length h \<and> obj_class (h ! a) = TableConstructor \<and> a \<in> anti_loop (enter_table v st)"
  then show "accept_hooked hk (Suc n) h v a st = Some (Inr (enter_table v st))" by simp
next
  show "events (enter_table v st) = events st" by simp
next
  show "anti_loop (enter_table v st) = (if same_visitor v st then anti_loop st else {})"
    by (auto simp: enter_table_def same_visitor_def split: option.splits)
next
  assume "own_traversals v hk \<and> cycles_pass_tables rank hk v h \<and> x < length h"
  then show "\<exists>m r. accept_hooked hk m h v x st = Some r"
    using accept_hooked_total_aux [of v hk rank h x st "unentered h v st"] by simp
qed

theorem table_constructor_entered_once_witness:
  "own_traversals 7 hk_own \<and>
   accept_hooked hk_own 5 h_cyclic 7 0 st0 = Some (Inr st_cyclic) \<and>
   distinct (tables_entered 7 st0 st_cyclic) \<and>
   same_visitor 7 st0 \<and> anti_loop st0 \<subseteq> anti_loop st_cyclic \<and>
   0 < length h_cyclic \<and> obj_class (h_cyclic ! 0) = TableConstructor \<and>
   0 \<in> anti_loop (enter_table 7 st_cyclic) \<and>
   accept_hooked hk_own 5 h_cyclic 7 0 st_cyclic = Some (Inr (enter_table 7 st_cyclic)) \<and>
   events (enter_table 7 st_cyclic) = events st_cyclic \<and>
   cycles_pass_tables rank_cyclic hk_own 7 h_cyclic \<and>
   (\<exists>m r. accept_hooked hk_own m h_cyclic 7 0 st0 = Some r)"
proof -
  have own: "own_traversals 7 hk_own"
    by (simp add: own_traversals_def hk_own_def)
  have run: "accept_hooked hk_own 5 h_cyclic 7 0 st0 = Some (Inr st_cyclic)"
    by (simp add: h_cyclic_def st0_def st_cyclic_def eval_nat_numeral call_hook_def enter_table_def
        hk_own_def)
  have sv: "same_visitor 7 st0"
    by (simp add: same_visitor_def st0_def)
  have skip: "0 < length h_cyclic \<and> obj_class (h_cyclic ! 0) = TableConstructor \<and>
      0 \<in> anti_loop (enter_table 7 st_cyclic)"
    by (simp add: h_cyclic_def st_cyclic_def enter_table_def)
  have acyc: "cycles_pass_tables rank_cyclic hk_own 7 h_cyclic"
    by (simp add: cycles_pass_tables_def h_cyclic_def traversed_from_def upt_rec rank_cyclic_def
        hk_own_def)
  have len: "0 < length h_cyclic" by (simp add: h_cyclic_def)
  note T1 = table_constructor_entered_once [where n = 5 and h = h_cyclic and v = 7 and hk = hk_own
      and x = 0 and st = st0 and st' = st_cyclic and rank = rank_cyclic, THEN conjunct1,
      rule_format, OF conjI [OF own run]]
  note T2 = table_constructor_entered_once [where n = 4 and h = h_cyclic and v = 7 and hk = hk_own
      and a = 0 and st = st_cyclic, THEN conjunct2, THEN conjunct1, rule_format, OF skip]
  note T3 = table_constructor_entered_once [where h = h_cyclic and v = 7 and hk = hk_own
      and x = 0 and st = st0 and rank = rank_cyclic, THEN conjunct2, THEN conjunct2, THEN conjunct2,
      rule_format, OF conjI [OF own conjI [OF acyc len]]]
  from T1 sv have "distinct (tables_entered 7 st0 st_cyclic)"
    and "anti_loop st0 \<subseteq> anti_loop st_cyclic" by blast+
  moreover have "accept_hooked hk_own 5 h_cyclic 7 0 st_cyclic = Some (Inr (enter_table 7 st_cyclic))"
    using T2 by (simp add: eval_nat_numeral)
  ultimately show ?thesis using own run sv skip T2 acyc T3 by blast
qed

text \<open>
  The property as the spec states it fails on \<open>h_shared\<close>: in the one traversal of node
  4 by visitor 7 the table constructor at node 0 is entered twice, because a hook let
  visitor 8 enter another table in between, and the guard then emptied \<^verbatim>\<open>anti_loop\<close>.
\<close>

theorem table_entered_twice_counterexample:
  "accept_hooked hk_other 4 h_shared 7 4 st0 = Some (Inr st_shared) \<and>
   tables_entered 7 st0 st_shared = [0, 0] \<and>
   tables_entered 8 st0 st_shared = [5]"
proof (intro conjI)
  show "accept_hooked hk_other 4 h_shared 7 4 st0 = Some (Inr st_shared)"
    by (simp add: h_shared_def st0_def st_shared_def eval_nat_numeral call_hook_def enter_table_def
        hk_other_def)
  show "tables_entered 7 st0 st_shared = [0, 0]"
    by (simp add: tables_entered_def st0_def st_shared_def)
  show "tables_entered 8 st0 st_shared = [5]"
    by (simp add: tables_entered_def st0_def st_shared_def)
qed

text \<open>Hooks that start no traversal: \<open>accept_hooked\<close> is \<open>accept\<close>.\<close>

lemma accept_hooked_none:
  "accept_hooked (\<lambda>v name a. []) n h v a st = accept n h v a st"
proof (induction n arbitrary: a st)
  case 0
  show ?case by simp
next
  case (Suc n)
  have acc: "accept_hooked (\<lambda>v name a. []) n h v = accept n h v"
    by (intro ext) (rule Suc.IH)
  have step: "hooked_step (accept_hooked (\<lambda>v name a. []) n h) (\<lambda>v name a. []) ob v self s st1 =
      run_step (accept n h v) ob v self s st1" for ob self s st1
    by (cases s) (simp_all add: acc split: option.splits pyval.splits)
  have steps: "hooked_steps (accept_hooked (\<lambda>v name a. []) n h) (\<lambda>v name a. []) ob v self ss st1 =
      run_steps (accept n h v) ob v self ss st1" for ob self ss st1
    by (induction ss arbitrary: st1) (simp_all add: step split: option.splits sum.splits)
  show ?case by (simp add: steps del: accept_body.simps)
qed


section \<open>Serialisation round trip\<close>

subsection \<open>\<^verbatim>\<open>to_dict\<close>: fuel, the visited set, and termination\<close>

lemma to_dict_items_mono:
  assumes "\<And>x vis r. f x vis = Some r \<Longrightarrow> f' x vis = Some r"
  shows "to_dict_items f xs vis = Some r \<Longrightarrow> to_dict_items f' xs vis = Some r"
proof (induction xs arbitrary: vis r)
  case Nil
  then show ?case by simp
next
  case (Cons x xs)
  from Cons.prems obtain y vis1 ys vis2 where 1: "f x vis = Some (y, vis1)"
    and 2: "to_dict_items f xs vis1 = Some (ys, vis2)" and r: "r = (y # ys, vis2)"
    by (auto split: option.splits prod.splits)
  from assms [OF 1] Cons.IH [OF 2] r show ?case by simp
qed

lemma to_dict_slots_conv:
  "to_dict_slots f ob names d vis =
     (case to_dict_items f (map (\<lambda>name. getattr ob name PNone) names) vis of
        None \<Rightarrow> None
      | Some (ys, vis') \<Rightarrow> Some (fold (\<lambda>(k, y). AList.update k y) (zip names ys) d, vis'))"
proof (induction names arbitrary: d vis)
  case Nil
  show ?case by simp
next
  case (Cons name names)
  show ?case
    by (simp add: Cons.IH split: option.splits prod.splits)
qed

lemma to_dict_items_length:
  "to_dict_items f xs vis = Some (ys, vis') \<Longrightarrow> length ys = length xs"
  by (induction xs arbitrary: vis ys) (auto split: option.splits prod.splits)

lemma fold_update_fresh:
  "distinct names \<Longrightarrow> set names \<inter> fst ` set d = {} \<Longrightarrow> length ys = length names \<Longrightarrow>
   fold (\<lambda>(k, y). AList.update k y) (zip names ys) d = d @ zip names ys"
proof (induction names arbitrary: d ys)
  case Nil
  then show ?case by simp
next
  case (Cons name names)
  then obtain y ys' where ys: "ys = y # ys'" by (cases ys) auto
  from Cons.prems have fresh: "name \<notin> fst ` set d" by auto
  then have upd: "AList.update name y d = d @ [(name, y)]"
    by (induction d) auto
  from Cons.prems ys have "fold (\<lambda>(k, y). AList.update k y) (zip names ys') (d @ [(name, y)])
      = (d @ [(name, y)]) @ zip names ys'"
    by (intro Cons.IH) auto
  with ys upd show ?case by simp
qed

lemma to_dict_Suc_mono:
  "to_dict n h v vis = Some r \<Longrightarrow> to_dict (Suc n) h v vis = Some r"
proof (induction n arbitrary: v vis r)
  case 0
  then show ?case by simp
next
  case (Suc n)
  have items: "\<And>xs vis r. to_dict_items (to_dict n h) xs vis = Some r \<Longrightarrow>
      to_dict_items (to_dict (Suc n) h) xs vis = Some r"
    by (rule to_dict_items_mono [rotated], assumption, rule Suc.IH)
  from Suc.prems show ?case
    by (subst to_dict.simps(2))
       (auto simp: to_dict_slots_conv split: pyval.splits option.splits if_splits prod.splits
             dest!: items)
qed

lemma to_dict_mono:
  "to_dict n h v vis = Some r \<Longrightarrow> n \<le> m \<Longrightarrow> to_dict m h v vis = Some r"
  by (induction m) (auto simp: le_Suc_eq dest: to_dict_Suc_mono simp del: to_dict.simps)

lemma to_dict_items_visited:
  assumes "\<And>x vis y vis'. f x vis = Some (y, vis') \<Longrightarrow> vis \<subseteq> vis'"
  shows "to_dict_items f xs vis = Some (ys, vis') \<Longrightarrow> vis \<subseteq> vis'"
proof (induction xs arbitrary: vis ys)
  case Nil
  then show ?case by simp
next
  case (Cons x xs)
  from Cons.prems obtain y vis1 ys1 where 1: "f x vis = Some (y, vis1)"
    and 2: "to_dict_items f xs vis1 = Some (ys1, vis')"
    by (auto split: option.splits prod.splits)
  from assms [OF 1] Cons.IH [OF 2] show ?case by simp
qed

lemma to_dict_visited:
  "to_dict n h v vis = Some (d, vis') \<Longrightarrow> vis \<subseteq> vis'"
proof (induction n arbitrary: v vis d vis')
  case 0
  then show ?case by simp
next
  case (Suc n)
  have items: "\<And>xs vis ys vis'. to_dict_items (to_dict n h) xs vis = Some (ys, vis') \<Longrightarrow> vis \<subseteq> vis'"
    by (rule to_dict_items_visited [rotated], assumption, rule Suc.IH)
  from Suc.prems show ?case
    by (auto simp: to_dict_slots_conv split: pyval.splits option.splits if_splits prod.splits
        dest!: items)
qed

lemma unvisited_mono: "vis \<subseteq> vis' \<Longrightarrow> unvisited h vis' \<le> unvisited h vis"
  unfolding unvisited_def by (intro card_mono) auto

lemma unvisited_insert:
  "a < length h \<Longrightarrow> a \<notin> vis \<Longrightarrow> unvisited h (insert a vis) < unvisited h vis"
  unfolding unvisited_def by (intro psubset_card_mono) auto

lemma to_dict_items_total:
  assumes tot: "\<And>x vis1. x \<in> set xs \<Longrightarrow> unvisited h vis1 \<le> k \<Longrightarrow>
                  \<exists>n r. to_dict n h x vis1 = Some r"
    and "unvisited h vis \<le> k"
  shows "\<exists>n r. to_dict_items (to_dict n h) xs vis = Some r"
  using assms
proof (induction xs arbitrary: vis)
  case Nil
  then show ?case by simp
next
  case (Cons x xs)
  from Cons.prems obtain n1 y vis1 where 1: "to_dict n1 h x vis = Some (y, vis1)"
    by (cases "\<exists>n r. to_dict n h x vis = Some r") fastforce+
  then have "unvisited h vis1 \<le> k"
    using Cons.prems(2) unvisited_mono [OF to_dict_visited [OF 1], of h] by simp
  then have "\<exists>n r. to_dict_items (to_dict n h) xs vis1 = Some r"
    using Cons.prems(1) by (intro Cons.IH) auto
  then obtain n2 ys vis2 where 2: "to_dict_items (to_dict n2 h) xs vis1 = Some (ys, vis2)"
    by fastforce
  have m1: "\<And>x vis r. to_dict n1 h x vis = Some r \<Longrightarrow> to_dict (max n1 n2) h x vis = Some r"
    by (erule to_dict_mono) simp
  have m2: "\<And>x vis r. to_dict n2 h x vis = Some r \<Longrightarrow> to_dict (max n1 n2) h x vis = Some r"
    by (erule to_dict_mono) simp
  from m1 [OF 1] to_dict_items_mono [OF m2 2]
  have "to_dict_items (to_dict (max n1 n2) h) (x # xs) vis = Some (y # ys, vis2)" by simp
  then show ?case by blast
qed

lemma wf_heap_slot:
  "wf_heap h \<Longrightarrow> a < length h \<Longrightarrow> name \<in> set (slots (obj_class (h ! a))) \<Longrightarrow>
   wf_val (length h) (getattr (h ! a) name PNone)"
  by (auto simp: wf_heap_def list_all_iff)

lemma to_dict_total_aux:
  assumes wf: "wf_heap h"
  shows "wf_val (length h) v \<Longrightarrow> unvisited h vis \<le> k \<Longrightarrow> \<exists>n r. to_dict n h v vis = Some r"
proof (induction k arbitrary: v vis rule: less_induct)
  case (less k)
  note outer = less.IH
  from less.prems show ?case
  proof (induction v arbitrary: vis)
    case (PList xs)
    have "\<exists>n r. to_dict_items (to_dict n h) xs vis = Some r"
    proof (rule to_dict_items_total [OF _ PList.prems(2)])
      fix x vis1
      assume "x \<in> set xs" and "unvisited h vis1 \<le> k"
      with PList.prems(1) show "\<exists>n r. to_dict n h x vis1 = Some r"
        by (intro PList.IH) (auto simp: list_all_iff)
    qed
    then obtain n ys vis' where "to_dict_items (to_dict n h) xs vis = Some (ys, vis')"
      by fastforce
    then have "to_dict (Suc n) h (PList xs) vis = Some (PList ys, vis')" by simp
    then show ?case by blast
  next
    case (PObj a)
    then have a: "a < length h" by simp
    show ?case
    proof (cases "a \<in> vis")
      case True
      with a have "to_dict (Suc 0) h (PObj a) vis =
          Some (PDict [(''class'', PStr ''Ref''), (''_id'', PInt (int a))], vis)"
        by simp
      then show ?thesis by blast
    next
      case False
      define j where "j = unvisited h (insert a vis)"
      with unvisited_insert [OF a False] PObj.prems(2) have j: "j < k" by simp
      have "\<exists>n r. to_dict_items (to_dict n h)
              (map (\<lambda>name. getattr (h ! a) name PNone) (slots (obj_class (h ! a))))
              (insert a vis) = Some r"
      proof (rule to_dict_items_total [where k = j])
        fix x vis1
        assume "x \<in> set (map (\<lambda>name. getattr (h ! a) name PNone) (slots (obj_class (h ! a))))"
          and "unvisited h vis1 \<le> j"
        with wf a j show "\<exists>n r. to_dict n h x vis1 = Some r"
          by (intro outer [of j]) (auto dest: wf_heap_slot)
      qed (simp add: j_def)
      then obtain n ys vis' where "to_dict_items (to_dict n h)
              (map (\<lambda>name. getattr (h ! a) name PNone) (slots (obj_class (h ! a))))
              (insert a vis) = Some (ys, vis')"
        by fastforce
      with a False have "\<exists>r. to_dict (Suc n) h (PObj a) vis = Some r"
        by (simp add: to_dict_slots_conv)
      then show ?thesis by blast
    qed
  next
    case (PDict d)
    then show ?case by simp
  next
    case PNone
    have "to_dict (Suc 0) h PNone vis = Some (PNone, vis)" by simp
    then show ?case by blast
  next
    case (PBool b)
    have "to_dict (Suc 0) h (PBool b) vis = Some (PBool b, vis)" by simp
    then show ?case by blast
  next
    case (PInt i)
    have "to_dict (Suc 0) h (PInt i) vis = Some (PInt i, vis)" by simp
    then show ?case by blast
  next
    case (PFloat w)
    have "to_dict (Suc 0) h (PFloat w) vis = Some (PFloat w, vis)" by simp
    then show ?case by blast
  next
    case (PStr s)
    have "to_dict (Suc 0) h (PStr s) vis = Some (PStr s, vis)" by simp
    then show ?case by blast
  qed
qed

lemma to_dict_total:
  "wf_heap h \<Longrightarrow> wf_val (length h) v \<Longrightarrow> \<exists>n d vis'. to_dict n h v vis = Some (d, vis')"
  using to_dict_total_aux [of h v vis "unvisited h vis"] by fastforce

subsection \<open>The relation between the two heaps\<close>

lemma simD:
  assumes "sim h X vis vis' st st'"
  shows "vis \<subseteq> vis'"
    and "length (fst st) \<le> length (fst st')"
    and "X \<subseteq> {..<length (fst st)}"
    and "\<And>i. i < length (fst st) \<Longrightarrow> i \<notin> X \<Longrightarrow> fst st' ! i = fst st ! i"
    and "\<And>a. a \<in> vis \<Longrightarrow> snd st' (PInt (int a)) = snd st (PInt (int a))"
    and "\<And>a. a \<in> vis' \<Longrightarrow> a \<notin> vis \<Longrightarrow> PInt (int a) \<in> dom (snd st')"
    and "\<And>a. a \<in> vis' \<Longrightarrow> a \<notin> vis \<Longrightarrow> length (fst st) \<le> image_of (snd st') a"
    and "\<And>a. a \<in> vis' \<Longrightarrow> a \<notin> vis \<Longrightarrow> node_ok h vis' (fst st') (image_of (snd st')) a"
    and "inj_on (image_of (snd st')) (vis' - vis)"
  using assms unfolding sim_def by simp_all

lemma simI:
  assumes "vis \<subseteq> vis'"
    and "length (fst st) \<le> length (fst st')"
    and "X \<subseteq> {..<length (fst st)}"
    and "\<And>i. i < length (fst st) \<Longrightarrow> i \<notin> X \<Longrightarrow> fst st' ! i = fst st ! i"
    and "\<And>a. a \<in> vis \<Longrightarrow> snd st' (PInt (int a)) = snd st (PInt (int a))"
    and "\<And>a. a \<in> vis' \<Longrightarrow> a \<notin> vis \<Longrightarrow> PInt (int a) \<in> dom (snd st')"
    and "\<And>a. a \<in> vis' \<Longrightarrow> a \<notin> vis \<Longrightarrow> length (fst st) \<le> image_of (snd st') a"
    and "\<And>a. a \<in> vis' \<Longrightarrow> a \<notin> vis \<Longrightarrow> node_ok h vis' (fst st') (image_of (snd st')) a"
    and "inj_on (image_of (snd st')) (vis' - vis)"
  shows "sim h X vis vis' st st'"
  using assms unfolding sim_def by simp

lemma reloc_cong: "(\<And>a. a \<in> refs v \<Longrightarrow> f a = f' a) \<Longrightarrow> reloc f v = reloc f' v"
  by (induction v) auto

lemma node_ok_stable:
  assumes ok: "node_ok h vis g f a" and sub: "vis \<subseteq> vis'" and a: "a \<in> vis"
    and f: "\<And>b. b \<in> vis \<Longrightarrow> f' b = f b"
    and g: "g' ! f a = g ! f a" "length g \<le> length g'"
  shows "node_ok h vis' g' f' a"
proof -
  have fa: "f' a = f a" using f a by simp
  have rel: "reloc f' x = reloc f x" if "refs x \<subseteq> vis" for x
    using that f by (intro reloc_cong) auto
  from ok have 1: "a < length h" "f a < length g" "obj_class (g ! f a) = obj_class (h ! a)"
    and 2: "\<And>name. name \<in> set (slots (obj_class (h ! a))) \<Longrightarrow>
        refs (getattr (h ! a) name PNone) \<subseteq> vis \<and>
        getattr (g ! f a) name PNone = reloc f (getattr (h ! a) name PNone)"
    and 3: "\<And>name. name \<notin> set (slots (obj_class (h ! a))) \<Longrightarrow>
        map_of (attrs (g ! f a)) name =
        map_of (attrs (hd (construct (obj_class (h ! a)) (f a)))) name"
    unfolding node_ok_def by simp_all
  show ?thesis
    unfolding node_ok_def fa g(1)
  proof (intro conjI ballI allI impI)
    show "a < length h" by (rule 1)
    show "f a < length g'" using 1(2) g(2) by simp
    show "obj_class (g ! f a) = obj_class (h ! a)" by (rule 1)
  next
    fix name assume n: "name \<in> set (slots (obj_class (h ! a)))"
    from 2 [OF n] sub show "refs (getattr (h ! a) name PNone) \<subseteq> vis'" by blast
    from 2 [OF n] show "getattr (g ! f a) name PNone = reloc f' (getattr (h ! a) name PNone)"
      by (simp add: rel)
  next
    fix name assume "name \<notin> set (slots (obj_class (h ! a)))"
    then show "map_of (attrs (g ! f a)) name =
        map_of (attrs (hd (construct (obj_class (h ! a)) (f a)))) name"
      by (rule 3)
  qed
qed

lemma sim_refl: "X \<subseteq> {..<length (fst st)} \<Longrightarrow> sim h X vis vis st st"
  by (rule simI) simp_all

lemma sim_trans:
  assumes 1: "sim h X vis vis1 st st1" and 2: "sim h X vis1 vis2 st1 st2"
  shows "sim h X vis vis2 st st2"
proof -
  let ?f1 = "image_of (snd st1)" and ?f2 = "image_of (snd st2)"
  note A = simD [OF 1] and B = simD [OF 2]
  have agree: "?f2 b = ?f1 b" if "b \<in> vis1" for b
    using B(5) [OF that] by (simp add: image_of_def)
  have old: "length (fst st) \<le> ?f2 a \<and> ?f2 a < length (fst st1) \<and>
      PInt (int a) \<in> dom (snd st2) \<and> node_ok h vis2 (fst st2) ?f2 a"
    if a1: "a \<in> vis1" and a: "a \<notin> vis" for a
  proof -
    note ok = A(8) [OF a1 a] and ge = A(7) [OF a1 a] and dom = A(6) [OF a1 a]
    from ok have lt: "?f1 a < length (fst st1)" by (simp add: node_ok_def)
    from A(3) ge have "?f1 a \<notin> X" by auto
    with B(4) lt have same: "fst st2 ! ?f1 a = fst st1 ! ?f1 a" by simp
    have "node_ok h vis2 (fst st2) ?f2 a"
      by (rule node_ok_stable [OF ok B(1) a1 agree same B(2)])
    moreover from B(5) [OF a1] dom have "PInt (int a) \<in> dom (snd st2)" by (simp add: dom_def)
    ultimately show ?thesis using ge lt agree [OF a1] by simp
  qed
  have new: "length (fst st1) \<le> ?f2 a \<and> PInt (int a) \<in> dom (snd st2) \<and>
      node_ok h vis2 (fst st2) ?f2 a"
    if "a \<in> vis2" "a \<notin> vis1" for a
    using B(6,7,8) [OF that] by simp
  show ?thesis
  proof (rule simI)
    show "vis \<subseteq> vis2" using A(1) B(1) by simp
    show "length (fst st) \<le> length (fst st2)" using A(2) B(2) by simp
    show "X \<subseteq> {..<length (fst st)}" by (rule A(3))
  next
    fix i assume i: "i < length (fst st)" "i \<notin> X"
    with A(2) have "i < length (fst st1)" by simp
    with B(4) i A(4) show "fst st2 ! i = fst st ! i" by simp
  next
    fix a assume a: "a \<in> vis"
    with A(1) have "a \<in> vis1" by blast
    with A(5) [OF a] B(5) show "snd st2 (PInt (int a)) = snd st (PInt (int a))" by simp
  next
    fix a assume a: "a \<in> vis2" "a \<notin> vis"
    show "PInt (int a) \<in> dom (snd st2)"
      using old [of a] new [of a] a by (cases "a \<in> vis1") simp_all
    show "length (fst st) \<le> image_of (snd st2) a"
      using old [of a] new [of a] a A(2) by (cases "a \<in> vis1") simp_all
    show "node_ok h vis2 (fst st2) (image_of (snd st2)) a"
      using old [of a] new [of a] a by (cases "a \<in> vis1") simp_all
  next
    show "inj_on ?f2 (vis2 - vis)"
    proof (rule inj_onI)
      fix a b
      assume a: "a \<in> vis2 - vis" and b: "b \<in> vis2 - vis" and eq: "?f2 a = ?f2 b"
      show "a = b"
      proof (cases "a \<in> vis1")
        case a1: True
        show ?thesis
        proof (cases "b \<in> vis1")
          case True
          with a1 eq agree have "?f1 a = ?f1 b" by simp
          moreover from a b a1 True have "a \<in> vis1 - vis" "b \<in> vis1 - vis" by simp_all
          ultimately show ?thesis using A(9) by (rule inj_onD [rotated])
        next
          case False
          with a b a1 old [of a] new [of b] eq show ?thesis by simp
        qed
      next
        case a1: False
        show ?thesis
        proof (cases "b \<in> vis1")
          case True
          with a b a1 old [of b] new [of a] eq show ?thesis by simp
        next
          case False
          with a b a1 have "a \<in> vis2 - vis1" "b \<in> vis2 - vis1" by simp_all
          with eq B(9) show ?thesis by (auto dest: inj_onD)
        qed
      qed
    qed
  qed
qed

lemma sim_weaken:
  "sim h {} vis vis' st st' \<Longrightarrow> X \<subseteq> {..<length (fst st)} \<Longrightarrow> sim h X vis vis' st st'"
  by (simp add: sim_def)

lemma node_ok_heap:
  "node_ok h vis g f a \<Longrightarrow> g' ! f a = g ! f a \<Longrightarrow> length g' = length g \<Longrightarrow> node_ok h vis g' f a"
  by (simp add: node_ok_def)

lemma length_setattr [simp]: "length (setattr g res k y) = length g"
  by (simp add: setattr_def)

lemma nth_setattr_other [simp]: "i \<noteq> res \<Longrightarrow> setattr g res k y ! i = g ! i"
  by (simp add: setattr_def)

lemma sim_setattr:
  assumes s: "sim h X vis vis' st (g', m')" and "res \<in> X"
  shows "sim h X vis vis' st (setattr g' res k y, m')"
proof -
  note A = simD [OF s]
  from A(3) assms(2) have res: "res < length (fst st)" by auto
  show ?thesis
  proof (rule simI)
    show "vis \<subseteq> vis'" by (rule A(1))
    show "length (fst st) \<le> length (fst (setattr g' res k y, m'))" using A(2) by simp
    show "X \<subseteq> {..<length (fst st)}" by (rule A(3))
    show "inj_on (image_of (snd (setattr g' res k y, m'))) (vis' - vis)" using A(9) by simp
  next
    fix i assume i: "i < length (fst st)" "i \<notin> X"
    with assms(2) have "i \<noteq> res" by blast
    then have "fst (setattr g' res k y, m') ! i = g' ! i" by simp
    also have "g' ! i = fst st ! i" using A(4) [OF i] by simp
    finally show "fst (setattr g' res k y, m') ! i = fst st ! i" .
  next
    fix a assume a: "a \<in> vis"
    show "snd (setattr g' res k y, m') (PInt (int a)) = snd st (PInt (int a))"
      using A(5) [OF a] by simp
  next
    fix a assume a: "a \<in> vis'" "a \<notin> vis"
    show "PInt (int a) \<in> dom (snd (setattr g' res k y, m'))" using A(6) [OF a] by simp
    show "length (fst st) \<le> image_of (snd (setattr g' res k y, m')) a" using A(7) [OF a] by simp
    have ne: "image_of m' a \<noteq> res" using A(7) [OF a] res by simp
    have "node_ok h vis' (setattr g' res k y) (image_of m') a"
    proof (rule node_ok_heap)
      show "node_ok h vis' g' (image_of m') a" using A(8) [OF a] by simp
      show "setattr g' res k y ! image_of m' a = g' ! image_of m' a" using ne by simp
      show "length (setattr g' res k y) = length g'" by simp
    qed
    then show "node_ok h vis' (fst (setattr g' res k y, m')) (image_of (snd (setattr g' res k y, m'))) a"
      by simp
  qed
qed

subsection \<open>\<^verbatim>\<open>load_dict\<close> on what \<^verbatim>\<open>to_dict\<close> writes\<close>

lemma class_name_not_Ref: "class_name c \<noteq> ''Ref''"
  by (cases c) simp_all

lemma subclass_name_mapping_class_name: "subclass_name_mapping (class_name c) = Some c"
  by (cases c) (simp_all add: subclass_name_mapping_def all_classes_def)

lemma slots_distinct: "distinct (slots c)"
  by (cases c) simp_all

lemma slots_not_reserved: "''class'' \<notin> set (slots c) \<and> ''_id'' \<notin> set (slots c)"
  by (cases c) simp_all

lemma delete_zip_fresh:
  "k \<notin> set names \<Longrightarrow> AList.delete k (zip names ys) = zip names ys"
  by (induction names arbitrary: ys) (auto simp: zip_Cons1 split: list.splits)

lemma map_of_zip_fresh:
  "k \<notin> set names \<Longrightarrow> map_of (zip names ys) k = None"
  by (induction names arbitrary: ys) (auto simp: zip_Cons1 split: list.splits)

lemma load_dict_Ref:
  "m (PInt (int a)) = Some r \<Longrightarrow>
   load_dict (PDict [(''class'', PStr ''Ref''), (''_id'', PInt (int a))]) (g, m) = Inr (PObj r, (g, m))"
  by (simp add: dict_pop_def)

lemma load_dict_node:
  assumes "''class'' \<notin> set names" "''_id'' \<notin> set names"
  shows "load_dict (PDict ([(''class'', PStr (class_name c)), (''_id'', PInt (int a))] @ zip names ys)) (g, m) =
     (case load_attrs (length g) (zip names ys)
             (g @ construct c (length g), m(PInt (int a) \<mapsto> length g)) of
        Inl e \<Rightarrow> Inl e
      | Inr st1 \<Rightarrow> Inr (PObj (length g), st1))"
  using assms
  by (simp add: dict_pop_def delete_zip_fresh map_of_zip_fresh class_name_not_Ref
      subclass_name_mapping_class_name new_def)

subsection \<open>Loading undoes serialising\<close>

lemma simulatesD:
  assumes "simulates h f" "f v vis = Some (d, vis')" "wf_val (length h) v" "mapped vis (snd st)"
  obtains v' st' where "load_dict d st = Inr (v', st')" "sim h {} vis vis' st st'"
    "refs v \<subseteq> vis'" "v' = reloc (image_of (snd st')) v"
  using assms unfolding simulates_def by blast

lemma mapped_sim:
  assumes "mapped vis (snd st)" and s: "sim h X vis vis' st st'"
  shows "mapped vis' (snd st')"
  unfolding mapped_def
proof
  fix a assume a: "a \<in> vis'"
  show "PInt (int a) \<in> dom (snd st')"
  proof (cases "a \<in> vis")
    case True
    with assms(1) have "PInt (int a) \<in> dom (snd st)" by (simp add: mapped_def)
    with simD(5) [OF s True] show ?thesis by (simp add: dom_def)
  next
    case False
    with a show ?thesis by (rule simD(6) [OF s])
  qed
qed

lemma reloc_sim:
  assumes s: "sim h X vis vis' st st'" and "refs x \<subseteq> vis"
  shows "reloc (image_of (snd st')) x = reloc (image_of (snd st)) x"
proof (rule reloc_cong)
  fix a assume "a \<in> refs x"
  with assms(2) have "a \<in> vis" by blast
  from simD(5) [OF s this] show "image_of (snd st') a = image_of (snd st) a"
    by (simp add: image_of_def)
qed

lemma items_simulated:
  assumes f: "simulates h f"
  shows "to_dict_items f xs vis = Some (ys, vis') \<Longrightarrow> list_all (wf_val (length h)) xs \<Longrightarrow>
         mapped vis (snd st) \<Longrightarrow>
         \<exists>ys' st'. load_list ys st = Inr (ys', st') \<and> sim h {} vis vis' st st' \<and>
                   (\<forall>x\<in>set xs. refs x \<subseteq> vis') \<and> ys' = map (reloc (image_of (snd st'))) xs"
proof (induction xs arbitrary: vis ys st)
  case Nil
  then show ?case by (simp add: sim_refl)
next
  case (Cons x xs)
  from Cons.prems(1) obtain y vis1 ys1 where 1: "f x vis = Some (y, vis1)"
    and 2: "to_dict_items f xs vis1 = Some (ys1, vis')" and ys: "ys = y # ys1"
    by (auto split: option.splits prod.splits)
  from Cons.prems(2) have wfx: "wf_val (length h) x" and wfxs: "list_all (wf_val (length h)) xs"
    by simp_all
  from simulatesD [OF f 1 wfx Cons.prems(3)]
  obtain y' st1 where l1: "load_dict y st = Inr (y', st1)" and s1: "sim h {} vis vis1 st st1"
    and r1: "refs x \<subseteq> vis1" and y': "y' = reloc (image_of (snd st1)) x"
    by blast
  have m1: "mapped vis1 (snd st1)" by (rule mapped_sim [OF Cons.prems(3) s1])
  from Cons.IH [OF 2 wfxs m1]
  obtain ys1' st' where "load_list ys1 st1 = Inr (ys1', st') \<and>
      sim h {} vis1 vis' st1 st' \<and> (\<forall>x\<in>set xs. refs x \<subseteq> vis') \<and>
      ys1' = map (reloc (image_of (snd st'))) xs"
    by (elim exE)
  then have l2: "load_list ys1 st1 = Inr (ys1', st')"
    and s2: "sim h {} vis1 vis' st1 st'" and r2: "\<forall>x\<in>set xs. refs x \<subseteq> vis'"
    and ys1': "ys1' = map (reloc (image_of (snd st'))) xs"
    by simp_all
  have F1: "load_list ys st = Inr (y' # ys1', st')" using l1 l2 ys by simp
  have F2: "sim h {} vis vis' st st'" by (rule sim_trans [OF s1 s2])
  have F3: "\<forall>x\<in>set (x # xs). refs x \<subseteq> vis'" using r1 r2 simD(1) [OF s2] by auto
  have F4: "y' # ys1' = map (reloc (image_of (snd st'))) (x # xs)"
    using y' ys1' reloc_sim [OF s2 r1] by simp
  show ?case
    by (rule exI [of _ "y' # ys1'"], rule exI [of _ st'], intro conjI) (rule F1 F2 F3 F4)+
qed

lemma getattr_setattr_same:
  "res < length g \<Longrightarrow> map_of (attrs (setattr g res k y ! res)) k = Some y"
  by (simp add: setattr_def update_conv')

lemma getattr_setattr_other:
  "res < length g \<Longrightarrow> k' \<noteq> k \<Longrightarrow>
   map_of (attrs (setattr g res k y ! res)) k' = map_of (attrs (g ! res)) k'"
  by (simp add: setattr_def update_conv')

lemma class_setattr: "res < length g \<Longrightarrow> obj_class (setattr g res k y ! res) = obj_class (g ! res)"
  by (simp add: setattr_def)

lemma attrs_simulated:
  assumes f: "simulates h f"
  shows "to_dict_items f xs vis = Some (ys, vis') \<Longrightarrow> list_all (wf_val (length h)) xs \<Longrightarrow>
         mapped vis (snd st) \<Longrightarrow> length names = length xs \<Longrightarrow> distinct names \<Longrightarrow>
         res < length (fst st) \<Longrightarrow>
         \<exists>st'. load_attrs res (zip names ys) st = Inr st' \<and> sim h {res} vis vis' st st' \<and>
               (\<forall>(name, x)\<in>set (zip names xs). refs x \<subseteq> vis' \<and>
                  map_of (attrs (fst st' ! res)) name = Some (reloc (image_of (snd st')) x)) \<and>
               obj_class (fst st' ! res) = obj_class (fst st ! res) \<and>
               (\<forall>k. k \<notin> set names \<longrightarrow>
                  map_of (attrs (fst st' ! res)) k = map_of (attrs (fst st ! res)) k)"
proof (induction names arbitrary: xs vis ys st)
  case Nil
  then show ?case by (simp add: sim_refl)
next
  case (Cons name names)
  from Cons.prems(4) obtain x xs1 where xs: "xs = x # xs1" by (cases xs) auto
  from Cons.prems(1) xs obtain y vis1 ys1 where 1: "f x vis = Some (y, vis1)"
    and 2: "to_dict_items f xs1 vis1 = Some (ys1, vis')" and ys: "ys = y # ys1"
    by (auto split: option.splits prod.splits)
  from Cons.prems(2) xs have wfx: "wf_val (length h) x" and wfxs: "list_all (wf_val (length h)) xs1"
    by simp_all
  from simulatesD [OF f 1 wfx Cons.prems(3)]
  obtain y' st1 where l1: "load_dict y st = Inr (y', st1)" and s1: "sim h {} vis vis1 st st1"
    and r1: "refs x \<subseteq> vis1" and y': "y' = reloc (image_of (snd st1)) x"
    by blast
  obtain g1 m1 where st1: "st1 = (g1, m1)" by (cases st1)
  let ?st1 = "(setattr g1 res name y', m1)"
  have res1: "res < length g1" using simD(2) [OF s1] Cons.prems(6) st1 by simp
  have sX: "sim h {res} vis vis1 st (g1, m1)"
  proof (rule sim_weaken)
    show "sim h {} vis vis1 st (g1, m1)" using s1 st1 by simp
    show "{res} \<subseteq> {..<length (fst st)}" using Cons.prems(6) by simp
  qed
  have s1': "sim h {res} vis vis1 st ?st1"
    by (rule sim_setattr [OF sX]) simp
  have m1: "mapped vis1 (snd ?st1)" using mapped_sim [OF Cons.prems(3) s1] st1 by simp
  have len: "length names = length xs1" and dist: "distinct names" and fresh: "name \<notin> set names"
    using Cons.prems(4,5) xs by simp_all
  have res1': "res < length (fst ?st1)" using res1 by simp
  from Cons.IH [OF 2 wfxs m1 len dist res1']
  obtain st' where H: "load_attrs res (zip names ys1) ?st1 = Inr st' \<and>
      sim h {res} vis1 vis' ?st1 st' \<and>
      (\<forall>(name, x)\<in>set (zip names xs1). refs x \<subseteq> vis' \<and>
                  map_of (attrs (fst st' ! res)) name = Some (reloc (image_of (snd st')) x)) \<and>
      obj_class (fst st' ! res) = obj_class (fst ?st1 ! res) \<and>
      (\<forall>k. k \<notin> set names \<longrightarrow>
                  map_of (attrs (fst st' ! res)) k = map_of (attrs (fst ?st1 ! res)) k)"
    by (elim exE)
  note l2 = H [THEN conjunct1]
    and s2 = H [THEN conjunct2, THEN conjunct1]
    and slots2 = H [THEN conjunct2, THEN conjunct2, THEN conjunct1]
    and cls2 = H [THEN conjunct2, THEN conjunct2, THEN conjunct2, THEN conjunct1]
    and other2 = H [THEN conjunct2, THEN conjunct2, THEN conjunct2, THEN conjunct2]
  have frame1: "g1 ! res = fst st ! res"
    using simD(4) [OF s1 Cons.prems(6)] st1 by simp
  have F1: "load_attrs res (zip (name # names) ys) st = Inr st'"
    using l1 l2 ys st1 by simp
  have F2: "sim h {res} vis vis' st st'" by (rule sim_trans [OF s1' s2])
  have F3: "\<forall>(name, x)\<in>set (zip (name # names) xs). refs x \<subseteq> vis' \<and>
                  map_of (attrs (fst st' ! res)) name = Some (reloc (image_of (snd st')) x)"
  proof -
    have "refs x \<subseteq> vis'" using r1 simD(1) [OF s2] by blast
    moreover have "map_of (attrs (fst st' ! res)) name = Some (reloc (image_of (snd st')) x)"
    proof -
      have "map_of (attrs (fst st' ! res)) name = map_of (attrs (fst ?st1 ! res)) name"
        using other2 fresh by simp
      also have "\<dots> = Some y'" using res1 by (simp add: getattr_setattr_same)
      also have "y' = reloc (image_of (snd st')) x"
        using reloc_sim [OF s2 r1] y' st1 by simp
      finally show ?thesis .
    qed
    ultimately show ?thesis using slots2 xs by simp
  qed
  have F4: "obj_class (fst st' ! res) = obj_class (fst st ! res)"
    using cls2 res1 frame1 by (simp add: class_setattr)
  have F5: "\<forall>k. k \<notin> set (name # names) \<longrightarrow>
                  map_of (attrs (fst st' ! res)) k = map_of (attrs (fst st ! res)) k"
  proof (intro allI impI)
    fix k assume k: "k \<notin> set (name # names)"
    then have "map_of (attrs (fst st' ! res)) k = map_of (attrs (fst ?st1 ! res)) k"
      using other2 by simp
    also have "\<dots> = map_of (attrs (g1 ! res)) k"
      using k res1 by (simp add: getattr_setattr_other)
    finally show "map_of (attrs (fst st' ! res)) k = map_of (attrs (fst st ! res)) k"
      using frame1 by simp
  qed
  show ?case
    by (rule exI [of _ st'], intro conjI) (rule F1 F2 F3 F4 F5)+
qed

lemma in_zip_map:
  "name \<in> set names \<Longrightarrow> (name, g name) \<in> set (zip names (map g names))"
  by (induction names) auto

lemma construct_nonempty: "construct c a \<noteq> []"
  by (cases c) simp_all

lemma construct_hd_class: "obj_class (hd (construct c a)) = c"
  by (cases c) (simp_all add: empty_list_def)

lemma nth_append_hd: "xs \<noteq> [] \<Longrightarrow> (g @ xs) ! length g = hd xs"
  by (cases xs) simp_all

lemma node_simulated:
  assumes f: "simulates h f" and wf: "wf_heap h"
    and a: "a < length h" "a \<notin> vis"
    and items: "to_dict_items f (map (\<lambda>name. getattr (h ! a) name PNone) (slots (obj_class (h ! a))))
                  (insert a vis) = Some (ys, vis')"
    and mapped: "mapped vis m"
  shows "\<exists>st'. load_dict (PDict ([(''class'', PStr (class_name (obj_class (h ! a)))),
                                   (''_id'', PInt (int a))] @ zip (slots (obj_class (h ! a))) ys)) (g, m)
                 = Inr (PObj (length g), st') \<and>
               sim h {} vis vis' (g, m) st' \<and> a \<in> vis' \<and>
               image_of (snd st') a = length g"
proof -
  let ?c = "obj_class (h ! a)"
  let ?names = "slots ?c"
  let ?xs = "map (\<lambda>name. getattr (h ! a) name PNone) ?names"
  let ?res = "length g"
  let ?g1 = "g @ construct ?c ?res"
  let ?m1 = "m(PInt (int a) \<mapsto> ?res)"
  have res1: "?res < length (fst (?g1, ?m1))" by (simp add: construct_nonempty)
  have g1res: "?g1 ! ?res = hd (construct ?c ?res)"
    by (rule nth_append_hd) (rule construct_nonempty)
  have cls1: "obj_class (?g1 ! ?res) = ?c"
    unfolding g1res by (rule construct_hd_class)
  have wfxs: "list_all (wf_val (length h)) ?xs"
    using wf_heap_slot [OF wf a(1)] by (simp add: list_all_iff)
  have m1: "mapped (insert a vis) (snd (?g1, ?m1))"
    using mapped by (simp add: mapped_def)
  have len: "length ?names = length ?xs" by simp
  from attrs_simulated [OF f items wfxs m1 len slots_distinct res1]
  obtain st' where H: "load_attrs ?res (zip ?names ys) (?g1, ?m1) = Inr st' \<and>
      sim h {?res} (insert a vis) vis' (?g1, ?m1) st' \<and>
      (\<forall>(name, x)\<in>set (zip ?names ?xs). refs x \<subseteq> vis' \<and>
          map_of (attrs (fst st' ! ?res)) name = Some (reloc (image_of (snd st')) x)) \<and>
      obj_class (fst st' ! ?res) = obj_class (fst (?g1, ?m1) ! ?res) \<and>
      (\<forall>k. k \<notin> set ?names \<longrightarrow>
          map_of (attrs (fst st' ! ?res)) k = map_of (attrs (fst (?g1, ?m1) ! ?res)) k)"
    by (elim exE)
  note l = H [THEN conjunct1]
    and S = H [THEN conjunct2, THEN conjunct1]
    and slots' = H [THEN conjunct2, THEN conjunct2, THEN conjunct1]
    and cls' = H [THEN conjunct2, THEN conjunct2, THEN conjunct2, THEN conjunct1]
    and other' = H [THEN conjunct2, THEN conjunct2, THEN conjunct2, THEN conjunct2]
  note SD = simD [OF S]
  let ?f = "image_of (snd st')"
  have avis': "a \<in> vis'" using SD(1) by blast
  have ma: "snd st' (PInt (int a)) = Some ?res"
    using SD(5) [of a] by simp
  then have fa: "?f a = ?res" by (simp add: image_of_def)
  have len1: "length ?g1 \<le> length (fst st')" using SD(2) by simp
  have res1n: "?res < length ?g1" by (simp add: construct_nonempty)
  have lt: "?res < length (fst st')" using res1n len1 by (rule less_le_trans)
  have load: "load_dict (PDict ([(''class'', PStr (class_name ?c)), (''_id'', PInt (int a))]
                @ zip ?names ys)) (g, m) = Inr (PObj ?res, st')"
  proof -
    have nr: "''class'' \<notin> set ?names" "''_id'' \<notin> set ?names"
      using slots_not_reserved [of ?c] by simp_all
    show ?thesis
      unfolding load_dict_node [OF nr] l by simp
  qed
  have ok_a: "node_ok h vis' (fst st') ?f a"
    unfolding node_ok_def fa
  proof (intro conjI ballI allI impI)
    show "a < length h" by (rule a)
    show "?res < length (fst st')" by (rule lt)
    show "obj_class (fst st' ! ?res) = ?c" using cls' cls1 by simp
  next
    fix name assume n: "name \<in> set ?names"
    then have "(name, getattr (h ! a) name PNone) \<in> set (zip ?names ?xs)"
      by (rule in_zip_map)
    with slots' have *: "refs (getattr (h ! a) name PNone) \<subseteq> vis' \<and>
        map_of (attrs (fst st' ! ?res)) name = Some (reloc ?f (getattr (h ! a) name PNone))"
      by blast
    from * show "refs (getattr (h ! a) name PNone) \<subseteq> vis'" by simp
    from * show "getattr (fst st' ! ?res) name PNone = reloc ?f (getattr (h ! a) name PNone)"
      by (simp add: getattr_def)
  next
    fix name assume "name \<notin> set ?names"
    with other' have "map_of (attrs (fst st' ! ?res)) name = map_of (attrs (?g1 ! ?res)) name"
      by simp
    then show "map_of (attrs (fst st' ! ?res)) name = map_of (attrs (hd (construct ?c ?res))) name"
      by (simp only: g1res)
  qed
  have sim: "sim h {} vis vis' (g, m) st'"
  proof (rule simI)
    show "vis \<subseteq> vis'" using SD(1) by blast
    show "length (fst (g, m)) \<le> length (fst st')" using len1 by simp
    show "{} \<subseteq> {..<length (fst (g, m))}" by simp
  next
    fix i assume i: "i < length (fst (g, m))" "i \<notin> {}"
    then have "fst st' ! i = ?g1 ! i" using SD(4) [of i] by simp
    with i show "fst st' ! i = fst (g, m) ! i" by (simp add: nth_append)
  next
    fix b assume b: "b \<in> vis"
    with a(2) have "b \<noteq> a" by blast
    with SD(5) [of b] b show "snd st' (PInt (int b)) = snd (g, m) (PInt (int b))" by simp
  next
    fix b assume b: "b \<in> vis'" "b \<notin> vis"
    show "PInt (int b) \<in> dom (snd st')"
    proof (cases "b = a")
      case True with ma show ?thesis by (simp add: dom_def)
    next
      case False with b SD(6) [of b] show ?thesis by simp
    qed
    show "length (fst (g, m)) \<le> ?f b"
    proof (cases "b = a")
      case True with fa show ?thesis by simp
    next
      case False with b SD(7) [of b] show ?thesis by simp
    qed
    show "node_ok h vis' (fst st') ?f b"
    proof (cases "b = a")
      case True with ok_a show ?thesis by simp
    next
      case False with b SD(8) [of b] show ?thesis by simp
    qed
  next
    have eq: "vis' - vis = insert a (vis' - insert a vis)" using avis' a(2) by blast
    have ne: "?f b \<noteq> ?res" if "b \<in> vis' - insert a vis" for b
    proof -
      from that have "b \<in> vis'" "b \<notin> insert a vis" by simp_all
      then have "length (fst (?g1, ?m1)) \<le> ?f b" by (rule SD(7))
      then have "length ?g1 \<le> ?f b" by simp
      with res1n have "?res < ?f b" by (rule less_le_trans)
      then show ?thesis by simp
    qed
    show "inj_on ?f (vis' - vis)"
      unfolding eq inj_on_insert fa
    proof (intro conjI)
      show "inj_on ?f (vis' - insert a vis)" by (rule SD(9))
      show "?res \<notin> ?f ` (vis' - insert a vis - {a})"
      proof
        assume "?res \<in> ?f ` (vis' - insert a vis - {a})"
        then obtain b where b: "b \<in> vis' - insert a vis - {a}" and e: "?res = ?f b"
          by (rule imageE)
        from b have "b \<in> vis' - insert a vis" by simp
        from ne [OF this] e show False by simp
      qed
    qed
  qed
  show ?thesis
    by (rule exI [of _ st'], intro conjI) (rule load sim avis' fa)+
qed

lemma to_dict_simulated:
  assumes wf: "wf_heap h"
  shows "simulates h (to_dict n h)"
proof (induction n)
  case 0
  show ?case by (simp add: simulates_def)
next
  case (Suc n)
  show ?case
    unfolding simulates_def
  proof (intro allI impI)
    fix v vis d vis' and st :: lstate
    assume run: "to_dict (Suc n) h v vis = Some (d, vis')"
      and wfv: "wf_val (length h) v" and mp: "mapped vis (snd st)"
    let ?goal = "\<exists>v' st'. load_dict d st = Inr (v', st') \<and> sim h {} vis vis' st st' \<and>
        refs v \<subseteq> vis' \<and> v' = reloc (image_of (snd st')) v"
    have atom: ?goal if "d = v" "vis' = vis" "load_dict v st = Inr (v, st)" "refs v = {}"
      "reloc (image_of (snd st)) v = v"
      using that by (intro exI [of _ v] exI [of _ st]) (simp add: sim_refl)
    show ?goal
    proof (cases v)
      case PNone
      with run show ?thesis by (intro atom) auto
    next
      case (PBool b)
      with run show ?thesis by (intro atom) auto
    next
      case (PInt i)
      with run show ?thesis by (intro atom) auto
    next
      case (PFloat w)
      with run show ?thesis by (intro atom) auto
    next
      case (PStr s)
      with run show ?thesis by (intro atom) auto
    next
      case (PDict kvs)
      with wfv show ?thesis by simp
    next
      case (PList xs)
      with run obtain ys where items: "to_dict_items (to_dict n h) xs vis = Some (ys, vis')"
        and d: "d = PList ys"
        by (auto split: option.splits prod.splits)
      from wfv PList have wfxs: "list_all (wf_val (length h)) xs" by simp
      from items_simulated [OF Suc.IH items wfxs mp]
      obtain ys' st' where H: "load_list ys st = Inr (ys', st') \<and> sim h {} vis vis' st st' \<and>
          (\<forall>x\<in>set xs. refs x \<subseteq> vis') \<and> ys' = map (reloc (image_of (snd st'))) xs"
        by (elim exE)
      have "load_dict d st = Inr (PList ys', st')" using H d by simp
      moreover have "sim h {} vis vis' st st'" using H by simp
      moreover have "refs v \<subseteq> vis'" using H PList by auto
      moreover have "PList ys' = reloc (image_of (snd st')) v" using H PList by simp
      ultimately show ?thesis by (intro exI [of _ "PList ys'"] exI [of _ st']) simp
    next
      case (PObj a)
      with run have a: "a < length h" by (auto split: if_splits)
      obtain g m where st: "st = (g, m)" by (cases st)
      show ?thesis
      proof (cases "a \<in> vis")
        case True
        with run PObj a have d: "d = PDict [(''class'', PStr ''Ref''), (''_id'', PInt (int a))]"
          and vis': "vis' = vis" by simp_all
        from mp True st obtain r where r: "m (PInt (int a)) = Some r"
          by (auto simp: mapped_def)
        have "load_dict d st = Inr (PObj r, st)" unfolding d st using r by (rule load_dict_Ref)
        moreover have "sim h {} vis vis' st st" unfolding vis' by (rule sim_refl) simp
        moreover have "refs v \<subseteq> vis'" using PObj True vis' by simp
        moreover have "PObj r = reloc (image_of (snd st)) v" using PObj r st by (simp add: image_of_def)
        ultimately show ?thesis by (intro exI [of _ "PObj r"] exI [of _ st]) simp
      next
        case False
        let ?c = "obj_class (h ! a)"
        from run PObj a False obtain ys where
          items: "to_dict_items (to_dict n h) (map (\<lambda>name. getattr (h ! a) name PNone) (slots ?c))
                    (insert a vis) = Some (ys, vis')"
          and d0: "d = PDict (fold (\<lambda>(k, y). AList.update k y) (zip (slots ?c) ys)
                     [(''class'', PStr (class_name ?c)), (''_id'', PInt (int a))])"
          by (auto simp: to_dict_slots_conv split: option.splits prod.splits)
        have len: "length ys = length (slots ?c)"
          using to_dict_items_length [OF items] by simp
        have d: "d = PDict ([(''class'', PStr (class_name ?c)), (''_id'', PInt (int a))]
                      @ zip (slots ?c) ys)"
          unfolding d0 using slots_not_reserved [of ?c]
          by (subst fold_update_fresh [OF slots_distinct _ len]) auto
        from mp st have mpm: "mapped vis m" by simp
        from node_simulated [OF Suc.IH wf a False items mpm, of g]
        obtain st' where H: "load_dict (PDict ([(''class'', PStr (class_name ?c)),
                                   (''_id'', PInt (int a))] @ zip (slots ?c) ys)) (g, m)
                 = Inr (PObj (length g), st') \<and>
               sim h {} vis vis' (g, m) st' \<and> a \<in> vis' \<and>
               image_of (snd st') a = length g"
          by (elim exE)
        have "load_dict d st = Inr (PObj (length g), st')" using H d st by simp
        moreover have "sim h {} vis vis' st st'" using H st by simp
        moreover have "refs v \<subseteq> vis'" using H PObj by simp
        moreover have "PObj (length g) = reloc (image_of (snd st')) v" using H PObj by simp
        ultimately show ?thesis by (intro exI [of _ "PObj (length g)"] exI [of _ st']) simp
      qed
    qed
  qed
qed

lemma to_dict_unique:
  assumes "to_dict n h v vis = Some r" "to_dict n' h v vis = Some r'"
  shows "r' = r"
proof -
  have "to_dict (max n n') h v vis = Some r" using assms(1) by (rule to_dict_mono) simp
  moreover have "to_dict (max n n') h v vis = Some r'" using assms(2) by (rule to_dict_mono) simp
  ultimately show ?thesis by simp
qed

subsection \<open>The round trip\<close>

lemma sim_nodes:
  assumes s: "sim h {} {} vis (g, m) st'" and a: "a \<in> vis"
  shows "a < length h"
    and "image_of (snd st') a < length (fst st')"
    and "length g \<le> image_of (snd st') a"
    and "obj_class (fst st' ! image_of (snd st') a) = obj_class (h ! a)"
    and "\<And>name. name \<in> set (slots (obj_class (h ! a))) \<Longrightarrow>
           refs (getattr (h ! a) name PNone) \<subseteq> vis \<and>
           getattr (fst st' ! image_of (snd st') a) name PNone =
             reloc (image_of (snd st')) (getattr (h ! a) name PNone)"
    and "\<And>name. name \<notin> set (slots (obj_class (h ! a))) \<Longrightarrow>
           getattr (fst st' ! image_of (snd st') a) name PNone =
             getattr (hd (construct (obj_class (h ! a)) (image_of (snd st') a))) name PNone"
proof -
  note SD = simD [OF s]
  have ok: "node_ok h vis (fst st') (image_of (snd st')) a"
    using SD(8) [OF a] by simp
  note N = ok [unfolded node_ok_def]
  show "a < length h" using N by simp
  show "image_of (snd st') a < length (fst st')" using N by simp
  show "length g \<le> image_of (snd st') a" using SD(7) [OF a] by simp
  show "obj_class (fst st' ! image_of (snd st') a) = obj_class (h ! a)" using N by simp
  show "refs (getattr (h ! a) name PNone) \<subseteq> vis \<and>
           getattr (fst st' ! image_of (snd st') a) name PNone =
             reloc (image_of (snd st')) (getattr (h ! a) name PNone)"
    if "name \<in> set (slots (obj_class (h ! a)))" for name
    using N that by blast
  show "getattr (fst st' ! image_of (snd st') a) name PNone =
             getattr (hd (construct (obj_class (h ! a)) (image_of (snd st') a))) name PNone"
    if "name \<notin> set (slots (obj_class (h ! a)))" for name
  proof -
    from N have "\<forall>name. name \<notin> set (slots (obj_class (h ! a))) \<longrightarrow>
        map_of (attrs (fst st' ! image_of (snd st') a)) name =
        map_of (attrs (hd (construct (obj_class (h ! a)) (image_of (snd st') a)))) name"
      by (elim conjE)
    with that show ?thesis by (simp add: getattr_def)
  qed
qed

lemma serialised_fields_subset: "set (serialised_fields c) \<subseteq> set (slots c)"
  by (simp add: serialised_fields_def)

lemma serialised_fields_cases:
  "serialised_fields c =
     (if c = NumericFor then [''variable'', ''statements'']
      else if c = IteratorFor then [''expressions'', ''statements'']
      else slots c)"
  by (cases c) (simp_all add: serialised_fields_def empty_list_def)

text \<open>
  C1, as the code has it. Let every slot of every node hold \<^verbatim>\<open>None\<close>, a bool, an int, a
  float, a string, a node, or a list of such values. Then \<^verbatim>\<open>to_dict\<close> returns on every
  such value \<open>v\<close>, and \<^verbatim>\<open>load_dict\<close> on its result returns, whatever instances exist
  already and whatever an earlier call left in \<^verbatim>\<open>mapping\<close>. The loaded value is \<open>v\<close>
  with every node replaced by its copy, a new instance: the copies of distinct nodes are
  distinct, all references to one node become references to its one copy (shared and
  cyclic references through \<^verbatim>\<open>Ref\<close> included), each copy has the class of its node, and
  each serialised field holds the copy of what it held. A field that \<^verbatim>\<open>_slots\<close> does not
  name holds what the constructor put there (so \<^verbatim>\<open>warpins_count\<close> of a \<^verbatim>\<open>Block\<close>, the
  fields \<^verbatim>\<open>_upvalues\<close>, \<^verbatim>\<open>_debuginfo\<close>, \<^verbatim>\<open>_instructions_count\<close> and \<^verbatim>\<open>error\<close> of a
  \<^verbatim>\<open>FunctionDefinition\<close> and \<^verbatim>\<open>_varinfo\<close> of an \<^verbatim>\<open>Identifier\<close> are not reproduced).
  This last part is stated for every class but \<^verbatim>\<open>Assignment\<close>, \<^verbatim>\<open>NumericFor\<close> and
  \<^verbatim>\<open>IteratorFor\<close>: their \<^verbatim>\<open>_slots\<close> miss \<^verbatim>\<open>type\<close>, \<^verbatim>\<open>expressions\<close> and
  \<^verbatim>\<open>identifiers\<close>, of which nothing is said here.
\<close>

theorem round_trip_serialised:
  assumes "wf_heap h" and "wf_val (length h) v"
  shows "\<exists>n d vis. to_dict n h v {} = Some (d, vis) \<and>
     (\<exists>v' g' m' f. load_dict d (g, m) = Inr (v', g', m') \<and>
        v' = reloc f v \<and> refs v \<subseteq> vis \<and> inj_on f vis \<and>
        (\<forall>a\<in>vis. a < length h \<and> f a < length g' \<and> length g \<le> f a \<and>
           obj_class (g' ! f a) = obj_class (h ! a) \<and>
           (\<forall>name\<in>set (serialised_fields (obj_class (h ! a))).
              refs (getattr (h ! a) name PNone) \<subseteq> vis \<and>
              getattr (g' ! f a) name PNone = reloc f (getattr (h ! a) name PNone)) \<and>
           (obj_class (h ! a) \<notin> {Assignment, NumericFor, IteratorFor} \<longrightarrow>
              (\<forall>name. name \<notin> set (slots (obj_class (h ! a))) \<longrightarrow>
                 getattr (g' ! f a) name PNone =
                 getattr (hd (construct (obj_class (h ! a)) (f a))) name PNone))))"
proof -
  from to_dict_total [OF assms] obtain n d vis where run: "to_dict n h v {} = Some (d, vis)"
    by blast
  have mp: "mapped {} (snd (g, m))" by (simp add: mapped_def)
  from simulatesD [OF to_dict_simulated [OF assms(1)] run assms(2) mp]
  obtain v' st' where l: "load_dict d (g, m) = Inr (v', st')" and s: "sim h {} {} vis (g, m) st'"
    and r: "refs v \<subseteq> vis" and v': "v' = reloc (image_of (snd st')) v"
    by this
  let ?f = "image_of (snd st')"
  note SN = sim_nodes [OF s]
  have nodes: "\<forall>a\<in>vis. a < length h \<and> ?f a < length (fst st') \<and> length g \<le> ?f a \<and>
           obj_class (fst st' ! ?f a) = obj_class (h ! a) \<and>
           (\<forall>name\<in>set (serialised_fields (obj_class (h ! a))).
              refs (getattr (h ! a) name PNone) \<subseteq> vis \<and>
              getattr (fst st' ! ?f a) name PNone = reloc ?f (getattr (h ! a) name PNone)) \<and>
           (obj_class (h ! a) \<notin> {Assignment, NumericFor, IteratorFor} \<longrightarrow>
              (\<forall>name. name \<notin> set (slots (obj_class (h ! a))) \<longrightarrow>
                 getattr (fst st' ! ?f a) name PNone =
                 getattr (hd (construct (obj_class (h ! a)) (?f a))) name PNone))"
  proof (intro ballI conjI impI allI)
    fix a assume a: "a \<in> vis"
    show "a < length h" by (rule SN(1) [OF a])
    show "?f a < length (fst st')" by (rule SN(2) [OF a])
    show "length g \<le> ?f a" by (rule SN(3) [OF a])
    show "obj_class (fst st' ! ?f a) = obj_class (h ! a)" by (rule SN(4) [OF a])
    show "refs (getattr (h ! a) name PNone) \<subseteq> vis"
      if "name \<in> set (serialised_fields (obj_class (h ! a)))" for name
      using SN(5) [OF a, of name] that serialised_fields_subset by blast
    show "getattr (fst st' ! ?f a) name PNone = reloc ?f (getattr (h ! a) name PNone)"
      if "name \<in> set (serialised_fields (obj_class (h ! a)))" for name
      using SN(5) [OF a, of name] that serialised_fields_subset by blast
    show "getattr (fst st' ! ?f a) name PNone =
            getattr (hd (construct (obj_class (h ! a)) (?f a))) name PNone"
      if "name \<notin> set (slots (obj_class (h ! a)))" for name
      by (rule SN(6) [OF a that])
  qed
  have inj: "inj_on ?f vis" using simD(9) [OF s] by simp
  have l': "load_dict d (g, m) = Inr (v', fst st', snd st')" using l by simp
  show ?thesis
    by (rule exI [of _ n], rule exI [of _ d], rule exI [of _ vis], rule conjI [OF run],
        rule exI [of _ v'], rule exI [of _ "fst st'"], rule exI [of _ "snd st'"],
        rule exI [of _ ?f], intro conjI)
       (rule l' v' r inj nodes)+
qed

theorem round_trip_serialised_witness:
  "wf_heap h_return \<and> wf_val (length h_return) (PObj 0) \<and>
   (\<exists>n d vis. to_dict n h_return (PObj 0) {} = Some (d, vis) \<and>
     (\<exists>v' g' m' f. load_dict d ([], Map.empty) = Inr (v', g', m') \<and>
        v' = reloc f (PObj 0) \<and> refs (PObj 0) \<subseteq> vis \<and> inj_on f vis \<and>
        (\<forall>a\<in>vis. a < length h_return \<and> f a < length g' \<and> length ([] :: heap) \<le> f a \<and>
           obj_class (g' ! f a) = obj_class (h_return ! a) \<and>
           (\<forall>name\<in>set (serialised_fields (obj_class (h_return ! a))).
              refs (getattr (h_return ! a) name PNone) \<subseteq> vis \<and>
              getattr (g' ! f a) name PNone = reloc f (getattr (h_return ! a) name PNone)) \<and>
           (obj_class (h_return ! a) \<notin> {Assignment, NumericFor, IteratorFor} \<longrightarrow>
              (\<forall>name. name \<notin> set (slots (obj_class (h_return ! a))) \<longrightarrow>
                 getattr (g' ! f a) name PNone =
                 getattr (hd (construct (obj_class (h_return ! a)) (f a))) name PNone)))))"
proof -
  have wf: "wf_heap h_return"
    by (simp add: wf_heap_def h_return_def getattr_def)
  have wfv: "wf_val (length h_return) (PObj 0)"
    by (simp add: h_return_def)
  show ?thesis
    by (intro conjI) (rule wf wfv round_trip_serialised [OF wf wfv])+
qed

text \<open>
  The property as the spec states it fails on \<open>h_block\<close>: the block has \<^verbatim>\<open>warpins_count\<close>
  2, its loaded copy has \<^verbatim>\<open>warpins_count\<close> 0 (the reference of the warp back to the
  block is reproduced through \<^verbatim>\<open>Ref\<close>).
\<close>

theorem round_trip_counterexample:
  "to_dict 4 h_block (PObj 0) {} = Some (d_block, {0, 1}) \<and>
   loaded (load_dict d_block ([], Map.empty)) = Some (PObj 0, g_block) \<and>
   getattr (h_block ! 0) ''warpins_count'' PNone = PInt 2 \<and>
   getattr (g_block ! 0) ''warpins_count'' PNone = PInt 0"
proof (intro conjI)
  show "to_dict 4 h_block (PObj 0) {} = Some (d_block, {0, 1})"
    by (simp add: h_block_def d_block_def eval_nat_numeral getattr_def insert_commute)
  show "loaded (load_dict d_block ([], Map.empty)) = Some (PObj 0, g_block)"
    by (simp add: d_block_def g_block_def loaded_def dict_pop_def subclass_name_mapping_def
        all_classes_def new_def setattr_def empty_list_def)
  show "getattr (h_block ! 0) ''warpins_count'' PNone = PInt 2"
    by (simp add: h_block_def getattr_def)
  show "getattr (g_block ! 0) ''warpins_count'' PNone = PInt 0"
    by (simp add: g_block_def getattr_def)
qed

text \<open>
  \<^verbatim>\<open>_slots\<close> of \<^verbatim>\<open>Assignment\<close> does not name \<^verbatim>\<open>type\<close>, which \<^verbatim>\<open>_slots\<close> of
  \<^verbatim>\<open>BinaryOperator\<close>, \<^verbatim>\<open>UnaryOperator\<close>, \<^verbatim>\<open>Identifier\<close>, \<^verbatim>\<open>UnconditionalWarp\<close>,
  \<^verbatim>\<open>Constant\<close> and \<^verbatim>\<open>Primitive\<close> do: the \<^verbatim>\<open>Assignment\<close> of \<open>h_assign\<close> has
  \<^verbatim>\<open>type\<close> 0 (a local definition), its loaded copy has \<^verbatim>\<open>type\<close> -1.
\<close>

lemma assignment_type_lost:
  "to_dict 5 h_assign (PObj 0) {} = Some (d_assign, {3, 1, 4, 2, 0}) \<and>
   loaded (load_dict d_assign ([], Map.empty)) = Some (PObj 0, g_assign) \<and>
   getattr (h_assign ! 0) ''type'' PNone = PInt 0 \<and>
   getattr (g_assign ! 0) ''type'' PNone = PInt (- 1)"
proof (intro conjI)
  show "to_dict 5 h_assign (PObj 0) {} = Some (d_assign, {3, 1, 4, 2, 0})"
    by (simp add: h_assign_def d_assign_def eval_nat_numeral getattr_def)
  show "loaded (load_dict d_assign ([], Map.empty)) = Some (PObj 0, g_assign)"
    by (simp add: d_assign_def g_assign_def loaded_def dict_pop_def subclass_name_mapping_def
        all_classes_def new_def setattr_def empty_list_def)
  show "getattr (h_assign ! 0) ''type'' PNone = PInt 0"
    by (simp add: h_assign_def getattr_def)
  show "getattr (g_assign ! 0) ''type'' PNone = PInt (- 1)"
    by (simp add: g_assign_def getattr_def)
qed

lemma to_dict_node_shape:
  assumes "a < length h" "a \<notin> vis" "to_dict (Suc n) h (PObj a) vis = Some (d, vis')"
  shows "\<exists>ys. to_dict_items (to_dict n h)
                 (map (\<lambda>name. getattr (h ! a) name PNone) (slots (obj_class (h ! a))))
                 (insert a vis) = Some (ys, vis') \<and>
              length ys = length (slots (obj_class (h ! a))) \<and>
              d = PDict ([(''class'', PStr (class_name (obj_class (h ! a)))), (''_id'', PInt (int a))]
                     @ zip (slots (obj_class (h ! a))) ys)"
proof -
  let ?c = "obj_class (h ! a)"
  from assms obtain ys where
    items: "to_dict_items (to_dict n h) (map (\<lambda>name. getattr (h ! a) name PNone) (slots ?c))
              (insert a vis) = Some (ys, vis')"
    and d0: "d = PDict (fold (\<lambda>(k, y). AList.update k y) (zip (slots ?c) ys)
               [(''class'', PStr (class_name ?c)), (''_id'', PInt (int a))])"
    by (auto simp: to_dict_slots_conv split: option.splits prod.splits)
  have len: "length ys = length (slots ?c)"
    using to_dict_items_length [OF items] by simp
  have d: "d = PDict ([(''class'', PStr (class_name ?c)), (''_id'', PInt (int a))]
                @ zip (slots ?c) ys)"
    unfolding d0 using slots_not_reserved [of ?c]
    by (subst fold_update_fresh [OF slots_distinct _ len]) auto
  from items len d show ?thesis by blast
qed

text \<open>
  C10. For every \<^verbatim>\<open>Block\<close> of such a heap, \<^verbatim>\<open>to_dict\<close> returns a dict whose keys are
  \<^verbatim>\<open>class\<close>, \<^verbatim>\<open>_id\<close> and the six names of \<^verbatim>\<open>Block._slots\<close>; loading it returns a
  new \<^verbatim>\<open>Block\<close> whose six slots hold the copies of what the original held, and whose
  \<^verbatim>\<open>warpins_count\<close> is 0, whatever the original's was. The copies are those of the
  round trip: distinct nodes have distinct copies, each copy is a new instance of the class
  of its node, and each of its slots holds the copy of what the node's slot held (so
  \<^verbatim>\<open>contents\<close> and \<^verbatim>\<open>warp\<close> of the loaded block are reproduced in depth).
\<close>

theorem block_round_trip:
  assumes wf: "wf_heap h" and a: "a < length h" and blk: "obj_class (h ! a) = Block"
  shows "\<exists>n d vis. to_dict n h (PObj a) {} = Some (PDict d, vis) \<and>
      map fst d = [''class'', ''_id'', ''index'', ''first_address'', ''last_address'',
                   ''contents'', ''warp'', ''loop''] \<and>
      (\<exists>g' m' f. load_dict (PDict d) (g, m) = Inr (PObj (f a), g', m') \<and>
          a \<in> vis \<and> inj_on f vis \<and> obj_class (g' ! f a) = Block \<and>
          getattr (g' ! f a) ''warpins_count'' PNone = PInt 0 \<and>
          (\<forall>name\<in>set (slots Block).
             getattr (g' ! f a) name PNone = reloc f (getattr (h ! a) name PNone)) \<and>
          (\<forall>b\<in>vis. b < length h \<and> f b < length g' \<and> length g \<le> f b \<and>
             obj_class (g' ! f b) = obj_class (h ! b) \<and>
             (\<forall>name\<in>set (slots (obj_class (h ! b))).
                refs (getattr (h ! b) name PNone) \<subseteq> vis \<and>
                getattr (g' ! f b) name PNone = reloc f (getattr (h ! b) name PNone))))"
proof -
  have wfv: "wf_val (length h) (PObj a)" using a by simp
  from to_dict_total [OF wf wfv] obtain n d0 vis where run: "to_dict n h (PObj a) {} = Some (d0, vis)"
    by blast
  then obtain n' where n: "n = Suc n'" by (cases n) simp_all
  from to_dict_node_shape [OF a _ run [unfolded n]] blk
  obtain ys where items: "to_dict_items (to_dict n' h)
                 (map (\<lambda>name. getattr (h ! a) name PNone) (slots (obj_class (h ! a))))
                 (insert a {}) = Some (ys, vis)"
    and len: "length ys = length (slots Block)"
    and d0: "d0 = PDict ([(''class'', PStr (class_name (obj_class (h ! a)))), (''_id'', PInt (int a))]
                     @ zip (slots (obj_class (h ! a))) ys)"
    by auto
  let ?d = "[(''class'', PStr (class_name (obj_class (h ! a)))), (''_id'', PInt (int a))]
                     @ zip (slots (obj_class (h ! a))) ys"
  have keys: "map fst ?d = [''class'', ''_id'', ''index'', ''first_address'', ''last_address'',
                   ''contents'', ''warp'', ''loop'']"
    using len by (simp add: blk)
  have mp: "mapped {} m" by (simp add: mapped_def)
  from node_simulated [OF to_dict_simulated [OF wf] wf a _ items mp, of g]
  obtain st' where H: "load_dict (PDict ?d) (g, m) = Inr (PObj (length g), st') \<and>
               sim h {} {} vis (g, m) st' \<and> a \<in> vis \<and>
               image_of (snd st') a = length g"
    by auto
  let ?f = "image_of (snd st')"
  from H have fa: "?f a = length g" and avis: "a \<in> vis" and s: "sim h {} {} vis (g, m) st'"
    by simp_all
  note SN = sim_nodes [OF s]
  have cls: "obj_class (fst st' ! ?f a) = Block" using SN(4) [OF avis] blk by simp
  have wc: "getattr (fst st' ! ?f a) ''warpins_count'' PNone = PInt 0"
    using SN(6) [OF avis, of "''warpins_count''"] by (simp add: blk getattr_def)
  have l: "load_dict (PDict ?d) (g, m) = Inr (PObj (?f a), fst st', snd st')"
    using H by simp
  have slots': "\<forall>name\<in>set (slots Block).
      getattr (fst st' ! ?f a) name PNone = reloc ?f (getattr (h ! a) name PNone)"
  proof
    fix name assume "name \<in> set (slots Block)"
    then have "name \<in> set (slots (obj_class (h ! a)))" by (simp only: blk)
    from SN(5) [OF avis this]
    show "getattr (fst st' ! ?f a) name PNone = reloc ?f (getattr (h ! a) name PNone)"
      by (rule conjunct2)
  qed
  have nodes: "\<forall>b\<in>vis. b < length h \<and> ?f b < length (fst st') \<and> length g \<le> ?f b \<and>
             obj_class (fst st' ! ?f b) = obj_class (h ! b) \<and>
             (\<forall>name\<in>set (slots (obj_class (h ! b))).
                refs (getattr (h ! b) name PNone) \<subseteq> vis \<and>
                getattr (fst st' ! ?f b) name PNone = reloc ?f (getattr (h ! b) name PNone))"
  proof (intro ballI conjI)
    fix b assume b: "b \<in> vis"
    show "b < length h" by (rule SN(1) [OF b])
    show "?f b < length (fst st')" by (rule SN(2) [OF b])
    show "length g \<le> ?f b" by (rule SN(3) [OF b])
    show "obj_class (fst st' ! ?f b) = obj_class (h ! b)" by (rule SN(4) [OF b])
    show "refs (getattr (h ! b) name PNone) \<subseteq> vis"
      if "name \<in> set (slots (obj_class (h ! b)))" for name
      using SN(5) [OF b that] by (rule conjunct1)
    show "getattr (fst st' ! ?f b) name PNone = reloc ?f (getattr (h ! b) name PNone)"
      if "name \<in> set (slots (obj_class (h ! b)))" for name
      using SN(5) [OF b that] by (rule conjunct2)
  qed
  have inj: "inj_on ?f vis" using simD(9) [OF s] by simp
  have run': "to_dict n h (PObj a) {} = Some (PDict ?d, vis)" using run d0 by simp
  show ?thesis
    by (rule exI [of _ n], rule exI [of _ ?d], rule exI [of _ vis], intro conjI, rule run',
        rule keys, rule exI [of _ "fst st'"],
        rule exI [of _ "snd st'"], rule exI [of _ ?f], intro conjI)
       (rule l avis inj cls wc slots' nodes)+
qed

theorem block_round_trip_witness:
  "wf_heap h_block \<and> 0 < length h_block \<and> obj_class (h_block ! 0) = Block \<and>
   getattr (h_block ! 0) ''warpins_count'' PNone = PInt 2 \<and>
   (\<exists>n d vis. to_dict n h_block (PObj 0) {} = Some (PDict d, vis) \<and>
      map fst d = [''class'', ''_id'', ''index'', ''first_address'', ''last_address'',
                   ''contents'', ''warp'', ''loop''] \<and>
      (\<exists>g' m' f. load_dict (PDict d) ([], Map.empty) = Inr (PObj (f 0), g', m') \<and>
          0 \<in> vis \<and> inj_on f vis \<and> obj_class (g' ! f 0) = Block \<and>
          getattr (g' ! f 0) ''warpins_count'' PNone = PInt 0 \<and>
          (\<forall>name\<in>set (slots Block).
             getattr (g' ! f 0) name PNone = reloc f (getattr (h_block ! 0) name PNone)) \<and>
          (\<forall>b\<in>vis. b < length h_block \<and> f b < length g' \<and> length ([] :: heap) \<le> f b \<and>
             obj_class (g' ! f b) = obj_class (h_block ! b) \<and>
             (\<forall>name\<in>set (slots (obj_class (h_block ! b))).
                refs (getattr (h_block ! b) name PNone) \<subseteq> vis \<and>
                getattr (g' ! f b) name PNone = reloc f (getattr (h_block ! b) name PNone)))))"
proof -
  have wf: "wf_heap h_block"
    by (simp add: wf_heap_def h_block_def getattr_def)
  have a: "0 < length h_block" and blk: "obj_class (h_block ! 0) = Block"
    and wc: "getattr (h_block ! 0) ''warpins_count'' PNone = PInt 2"
    by (simp_all add: h_block_def getattr_def)
  show ?thesis
    by (intro conjI) (rule wf a blk wc block_round_trip [OF wf a blk])+
qed

end
